theory Spec2Isabelle
  imports Complex_Main "HOL-Library.List_Lexorder"
begin

section \<open>The point lattice\<close>

text \<open>
  A numpy array of shape (4,) is a 4-tuple. Integer arrays hold Python/numpy integers
  (all values that occur are between -16 and 16, so 64-bit wrap-around never matters and
  the components are modelled as \<open>int\<close>).
\<close>

type_synonym 'a vec4 = "'a \<times> 'a \<times> 'a \<times> 'a"

type_synonym point = "int vec4"

datatype error = IndexError

text \<open>\<open>range(a, b)\<close> of Python.\<close>

definition range_py :: "int \<Rightarrow> int \<Rightarrow> int list" where
  "range_py a b = [a..b - 1]"

text \<open>
  \<open>all_points = [np.array([x, y, z, w]) for x in range(-1, 2) for y in range(-1, 2)
                  for z in range(-1, 2) for w in range(-1, 2)]\<close>
\<close>

definition all_points :: "point list" where
  "all_points =
     concat (map (\<lambda>x. concat (map (\<lambda>y. concat (map (\<lambda>z. map (\<lambda>w. (x, y, z, w))
       (range_py (-1) 2)) (range_py (-1) 2))) (range_py (-1) 2))) (range_py (-1) 2))"

text \<open>
  \<open>xs[i]\<close> on a Python list: an index from \<open>-len(xs)\<close> to \<open>-1\<close> counts from the end,
  anything outside \<open>-len(xs) .. len(xs) - 1\<close> raises IndexError.
\<close>

definition list_item :: "'a list \<Rightarrow> int \<Rightarrow> error + 'a" where
  "list_item xs i =
     (if 0 \<le> i \<and> i < int (length xs) then Inr (xs ! nat i)
      else if - int (length xs) \<le> i \<and> i < 0 then Inr (xs ! nat (int (length xs) + i))
      else Inl IndexError)"

text \<open>\<open>[all_points[i] for i in pt_idxs]\<close>: the first failing lookup raises.\<close>

fun points_at :: "int list \<Rightarrow> error + point list" where
  "points_at [] = Inr []"
| "points_at (i # is) =
     (case list_item all_points i of
        Inl e \<Rightarrow> Inl e
      | Inr p \<Rightarrow> (case points_at is of Inl e \<Rightarrow> Inl e | Inr ps \<Rightarrow> Inr (p # ps)))"

section \<open>Vector arithmetic\<close>

fun vsub :: "'a::minus vec4 \<Rightarrow> 'a vec4 \<Rightarrow> 'a vec4" where
  "vsub (a, b, c, d) (e, f, g, h) = (a - e, b - f, c - g, d - h)"

fun smul :: "'a::times \<Rightarrow> 'a vec4 \<Rightarrow> 'a vec4" where
  "smul k (a, b, c, d) = (k * a, k * b, k * c, k * d)"

fun vneg :: "'a::uminus vec4 \<Rightarrow> 'a vec4" where
  "vneg (a, b, c, d) = (- a, - b, - c, - d)"

fun dot :: "'a::{times,plus} vec4 \<Rightarrow> 'a vec4 \<Rightarrow> 'a" where
  "dot (a, b, c, d) (e, f, g, h) = a * e + b * f + c * g + d * h"

section \<open>The fast filter\<close>

text \<open>
  \<open>deltas = set(tuple(pts[i] - pts[i-1]) for i in range(1, len(pts)))\<close>: the list of
  the differences in the order of the generator; Python's \<open>set\<close> of it is its \<open>set\<close>.
\<close>

definition deltas :: "point list \<Rightarrow> point list" where
  "deltas pts = map (\<lambda>i. vsub (pts ! nat i) (pts ! nat (i - 1))) (range_py 1 (int (length pts)))"

definition is_solution_subseq_fast :: "int list \<Rightarrow> error + bool" where
  "is_solution_subseq_fast pt_idxs =
     (case points_at pt_idxs of
        Inl e \<Rightarrow> Inl e
      | Inr pts \<Rightarrow> Inr (card (set (deltas pts)) \<le> 2))"

section \<open>The exact check\<close>

text \<open>
  The integer part of \<open>is_solution_subseq\<close> is exact. Its second half works on float64
  arrays. A float64 value is modelled as the real number it stands for, and the float64
  operations the function uses are parameters of the model, collected in a record:
  true division, the elementwise product and difference, the dot product of two float
  arrays, and the float that the literal \<open>1e-8\<close> (the default \<open>atol\<close> of \<open>np.allclose\<close>)
  denotes. \<open>exact_ops\<close> is the instance without rounding; \<open>fp_accurate\<close> is the usual
  relative-error model of a correctly rounded arithmetic with unit roundoff \<open>u\<close>
  (float64 with round-to-nearest: \<open>u = 2^-53\<close>), stated so that any summation order
  of the four products of a dot product is covered.
\<close>

record fp_ops =
  fdiv :: "real \<Rightarrow> real \<Rightarrow> real"
  fmul :: "real \<Rightarrow> real \<Rightarrow> real"
  fsub :: "real \<Rightarrow> real \<Rightarrow> real"
  fdot :: "real vec4 \<Rightarrow> real vec4 \<Rightarrow> real"
  atol :: real

definition exact_ops :: fp_ops where
  "exact_ops = \<lparr>fdiv = (\<lambda>x y. x / y), fmul = (\<lambda>x y. x * y), fsub = (\<lambda>x y. x - y),
                 fdot = dot, atol = 1 / 10 ^ 8\<rparr>"

fun vabs :: "real vec4 \<Rightarrow> real vec4" where
  "vabs (a, b, c, d) = (\<bar>a\<bar>, \<bar>b\<bar>, \<bar>c\<bar>, \<bar>d\<bar>)"

definition fp_accurate :: "real \<Rightarrow> fp_ops \<Rightarrow> bool" where
  "fp_accurate u ops \<longleftrightarrow>
     (\<forall>x y. y \<noteq> 0 \<longrightarrow> \<bar>fdiv ops x y - x / y\<bar> \<le> u * \<bar>x / y\<bar>) \<and>
     (\<forall>x y. \<bar>fmul ops x y - x * y\<bar> \<le> u * \<bar>x * y\<bar>) \<and>
     (\<forall>x y. \<bar>fsub ops x y - (x - y)\<bar> \<le> u * \<bar>x - y\<bar>) \<and>
     (\<forall>v w. \<bar>fdot ops v w - dot v w\<bar> \<le> 5 * u * dot (vabs v) (vabs w)) \<and>
     \<bar>atol ops - 1 / 10 ^ 8\<bar> \<le> u / 10 ^ 8"

text \<open>An integer array used in float arithmetic is converted exactly.\<close>

fun to_float :: "point \<Rightarrow> real vec4" where
  "to_float (a, b, c, d) = (of_int a, of_int b, of_int c, of_int d)"

text \<open>\<open>k * v\<close> and \<open>v - w\<close> on float arrays, elementwise.\<close>

fun fscale :: "fp_ops \<Rightarrow> real \<Rightarrow> real vec4 \<Rightarrow> real vec4" where
  "fscale ops k (a, b, c, d) = (fmul ops k a, fmul ops k b, fmul ops k c, fmul ops k d)"

fun fvsub :: "fp_ops \<Rightarrow> real vec4 \<Rightarrow> real vec4 \<Rightarrow> real vec4" where
  "fvsub ops (a, b, c, d) (e, f, g, h) = (fsub ops a e, fsub ops b f, fsub ops c g, fsub ops d h)"

text \<open>
  \<open>p - np.dot(basis1, p)/np.dot(basis1, basis1)*basis1\<close> for integer arrays \<open>basis1\<close>
  and \<open>p\<close>: the two dot products are integers, their quotient is a float.
\<close>

definition orth1 :: "fp_ops \<Rightarrow> point \<Rightarrow> point \<Rightarrow> real vec4" where
  "orth1 ops basis1 p =
     fvsub ops (to_float p)
       (fscale ops (fdiv ops (of_int (dot basis1 p)) (of_int (dot basis1 basis1))) (to_float basis1))"

text \<open>
  \<open>orthogonalised - np.dot(basis2, orthogonalised)/np.dot(basis2, basis2)*basis2\<close> for
  float arrays.
\<close>

definition orth2 :: "fp_ops \<Rightarrow> real vec4 \<Rightarrow> real vec4 \<Rightarrow> real vec4" where
  "orth2 ops basis2 v =
     fvsub ops v (fscale ops (fdiv ops (fdot ops basis2 v) (fdot ops basis2 basis2)) basis2)"

text \<open>
  \<open>np.allclose(v, np.array([0,0,0,0]))\<close> with the default tolerances: every component
  satisfies \<open>abs(v[i] - 0) <= atol + rtol * abs(0)\<close>.
\<close>

fun allclose0 :: "fp_ops \<Rightarrow> real vec4 \<Rightarrow> bool" where
  "allclose0 ops (a, b, c, d) \<longleftrightarrow>
     \<bar>a\<bar> \<le> atol ops \<and> \<bar>b\<bar> \<le> atol ops \<and> \<bar>c\<bar> \<le> atol ops \<and> \<bar>d\<bar> \<le> atol ops"

text \<open>
  Lines 69 to 75 of the source: the orthogonalisation of \<open>basis2\<close> and the loop over the
  relative vectors. numpy does not raise on a division by zero: \<open>0/0\<close> is nan and \<open>x/0\<close>
  is infinite, either one turns the residual of the first relative vector into
  non-finite values, \<open>np.allclose\<close> is false on those, and the function returns False.
  These two outcomes are the two zero tests below.
\<close>

definition residuals_vanish :: "fp_ops \<Rightarrow> point \<Rightarrow> point \<Rightarrow> point list \<Rightarrow> bool" where
  "residuals_vanish ops basis1 b2 pts =
     (if dot basis1 basis1 = 0 then False
      else let basis2 = orth1 ops basis1 b2 in
        if fdot ops basis2 basis2 = 0 then False
        else list_all (\<lambda>p. allclose0 ops (orth2 ops basis2 (orth1 ops basis1 p))) pts)"

text \<open>
  Lines 51 to 54: the first point is the origin, the others are translated by it.
\<close>

definition relative_vectors :: "point list \<Rightarrow> point list" where
  "relative_vectors looked_up = map (\<lambda>p. vsub p (hd looked_up)) (tl looked_up)"

text \<open>
  Lines 61 to 65: the first of the later relative vectors that is none of \<open>-basis1\<close>,
  \<open>-2*basis1\<close>, \<open>2*basis1\<close>; \<open>None\<close> if there is none.
\<close>

definition second_basis :: "point \<Rightarrow> point list \<Rightarrow> point option" where
  "second_basis basis1 rest =
     find (\<lambda>p. p \<noteq> vneg basis1 \<and> p \<noteq> smul (- 2) basis1 \<and> p \<noteq> smul 2 basis1) rest"

definition is_solution_subseq :: "fp_ops \<Rightarrow> int list \<Rightarrow> error + bool" where
  "is_solution_subseq ops pt_idxs =
     (if length pt_idxs = 0 then Inr True
      else case points_at pt_idxs of
        Inl e \<Rightarrow> Inl e
      | Inr looked_up \<Rightarrow>
          (let pts = relative_vectors looked_up
           in if length pts < 2 then Inr True
              else let basis1 = hd pts in
                (case second_basis basis1 (tl pts) of
                   None \<Rightarrow> Inr True
                 | Some b2 \<Rightarrow> Inr (residuals_vanish ops basis1 b2 pts))))"

section \<open>The enumerator\<close>

text \<open>
  \<open>find_planes\<close> is a generator. Run to exhaustion it has yielded a sequence of planes,
  printed a string, and either ended normally or raised.
\<close>

record run =
  yielded :: "point list list"
  printed :: string
  raised :: "error option"

definition no_run :: run where
  "no_run = \<lparr>yielded = [], printed = [], raised = None\<rparr>"

definition raise_run :: "error \<Rightarrow> run" where
  "raise_run e = \<lparr>yielded = [], printed = [], raised = Some e\<rparr>"

text \<open>One run after another: what follows a raise does not happen.\<close>

definition run_then :: "run \<Rightarrow> run \<Rightarrow> run" where
  "run_then r1 r2 =
     (case raised r1 of
        Some e \<Rightarrow> r1
      | None \<Rightarrow> \<lparr>yielded = yielded r1 @ yielded r2, printed = printed r1 @ printed r2,
                 raised = raised r2\<rparr>)"

text \<open>
  \<open>remaining\<close> is a natural number: the only call of the program is the root call with
  \<open>remaining = 9\<close>, and every recursive call decrements it down to 0.
\<close>

fun find_planes :: "fp_ops \<Rightarrow> int \<Rightarrow> int list \<Rightarrow> nat \<Rightarrow> run" where
  "find_planes ops start_idx base 0 =
     (case is_solution_subseq ops base of
        Inl e \<Rightarrow> raise_run e
      | Inr False \<Rightarrow> no_run
      | Inr True \<Rightarrow>
          (case points_at base of
             Inl e \<Rightarrow> \<lparr>yielded = [], printed = ''.'', raised = Some e\<rparr>
           | Inr plane \<Rightarrow> \<lparr>yielded = [plane], printed = ''.'', raised = None\<rparr>))"
| "find_planes ops start_idx base (Suc r) =
     (case is_solution_subseq_fast base of
        Inl e \<Rightarrow> raise_run e
      | Inr False \<Rightarrow> no_run
      | Inr True \<Rightarrow>
          foldr (\<lambda>i rest. run_then (find_planes ops (i + 1) (base @ [i]) r) rest)
            (range_py start_idx (int (length all_points) - int (Suc r) + 1)) no_run)"

section \<open>Auxiliary notions for the statements\<close>

text \<open>The point with index \<open>i\<close>, in closed form.\<close>

definition pt_of :: "int \<Rightarrow> point" where
  "pt_of i = (i div 27 - 1, i div 9 mod 3 - 1, i div 3 mod 3 - 1, i mod 3 - 1)"

text \<open>Strict lexicographic order of 4-tuples.\<close>

fun lex_less :: "point \<Rightarrow> point \<Rightarrow> bool" where
  "lex_less (a, b, c, d) (e, f, g, h) \<longleftrightarrow>
     a < e \<or> a = e \<and> (b < f \<or> b = f \<and> (c < g \<or> c = g \<and> d < h))"

text \<open>
  The inverse lookup that the specification calls \<open>indexOf\<close>: the position of the first
  occurrence of a point in the lattice.
\<close>

primrec index_in :: "'a list \<Rightarrow> 'a \<Rightarrow> int option" where
  "index_in [] x = None"
| "index_in (y # ys) x = (if x = y then Some 0 else map_option (\<lambda>k. k + 1) (index_in ys x))"

definition indexOf :: "point \<Rightarrow> int option" where
  "indexOf p = index_in all_points p"

text \<open>A candidate has its indices in the range of the lattice.\<close>

definition in_range :: "int list \<Rightarrow> bool" where
  "in_range c \<longleftrightarrow> (\<forall>i\<in>set c. 0 \<le> i \<and> i \<le> 80)"

text \<open>
  The index sequences that \<open>find_planes\<close> completes below a node, without the base: the
  same recursion, collecting the chosen indices instead of the points.
\<close>

fun idx_tails :: "fp_ops \<Rightarrow> int \<Rightarrow> int list \<Rightarrow> nat \<Rightarrow> int list list" where
  "idx_tails ops s base 0 = (if is_solution_subseq ops base = Inr True then [[]] else [])"
| "idx_tails ops s base (Suc r) =
     (if is_solution_subseq_fast base = Inr True
      then concat (map (\<lambda>i. map ((#) i) (idx_tails ops (i + 1) (base @ [i]) r))
                    (range_py s (81 - int r)))
      else [])"

text \<open>A run that raises nothing and prints one dot per yielded plane.\<close>

definition plain_run :: "point list list \<Rightarrow> run" where
  "plain_run ps = \<lparr>yielded = ps, printed = replicate (length ps) CHR ''.'', raised = None\<rparr>"

definition dotted :: "run \<Rightarrow> bool" where
  "dotted r \<longleftrightarrow> printed r = replicate (length (yielded r)) CHR ''.''"

text \<open>Elementwise sum of two arrays.\<close>

fun vadd :: "'a::plus vec4 \<Rightarrow> 'a vec4 \<Rightarrow> 'a vec4" where
  "vadd (a, b, c, d) (e, f, g, h) = (a + e, b + f, c + g, d + h)"

text \<open>
  Affine coplanarity of a list of lattice points: all of them lie in one affine subspace
  \<open>o' + span {v, w}\<close> of real 4-space, of dimension at most 2.
\<close>

definition coplanar :: "point list \<Rightarrow> bool" where
  "coplanar pts \<longleftrightarrow>
     (\<exists>o' v w. \<forall>p\<in>set pts. \<exists>a b. to_float p = vadd o' (vadd (smul a v) (smul b w)))"

text \<open>A relative vector is a real combination of the two basis vectors.\<close>

definition in_span :: "point \<Rightarrow> point \<Rightarrow> point \<Rightarrow> bool" where
  "in_span b1 b2 p \<longleftrightarrow>
     (\<exists>x y. to_float p = vadd (smul x (to_float b1)) (smul y (to_float b2)))"

text \<open>
  The Gram determinant of two integer vectors; it is positive exactly when they are
  linearly independent.
\<close>

definition gram :: "point \<Rightarrow> point \<Rightarrow> int" where
  "gram b v = dot b b * dot v v - (dot b v)\<^sup>2"

text \<open>
  The residual that the two orthogonalisation steps of the source compute, in exact
  arithmetic and in closed form: the vector minus its orthogonal projection on the span of
  the basis vectors.
\<close>

definition coef1 :: "point \<Rightarrow> point \<Rightarrow> point \<Rightarrow> real" where
  "coef1 b1 b2 p = of_int (dot b1 p * dot b2 b2 - dot b1 b2 * dot b2 p) / of_int (gram b1 b2)"

definition coef2 :: "point \<Rightarrow> point \<Rightarrow> point \<Rightarrow> real" where
  "coef2 b1 b2 p = of_int (dot b1 b1 * dot b2 p - dot b1 b2 * dot b1 p) / of_int (gram b1 b2)"

definition residual :: "point \<Rightarrow> point \<Rightarrow> point \<Rightarrow> real vec4" where
  "residual b1 b2 p =
     vsub (to_float p) (vadd (smul (coef1 b1 b2 p) (to_float b1)) (smul (coef2 b1 b2 p) (to_float b2)))"

text \<open>
  A difference of a later and an earlier lattice point is lexicographically positive, and
  its components are between -2 and 2.
\<close>

definition lexpos :: "point \<Rightarrow> bool" where
  "lexpos v \<longleftrightarrow> lex_less (0, 0, 0, 0) v"

fun small :: "point \<Rightarrow> bool" where
  "small (a, b, c, d) \<longleftrightarrow> \<bar>a\<bar> \<le> 2 \<and> \<bar>b\<bar> \<le> 2 \<and> \<bar>c\<bar> \<le> 2 \<and> \<bar>d\<bar> \<le> 2"

definition lattice :: "point \<Rightarrow> bool" where
  "lattice p \<longleftrightarrow> p \<in> set all_points"

text \<open>Componentwise bounds for the rounding-error analysis.\<close>

fun bounded :: "real \<Rightarrow> real vec4 \<Rightarrow> bool" where
  "bounded e (a, b, c, d) \<longleftrightarrow> \<bar>a\<bar> \<le> e \<and> \<bar>b\<bar> \<le> e \<and> \<bar>c\<bar> \<le> e \<and> \<bar>d\<bar> \<le> e"

fun close :: "real \<Rightarrow> real vec4 \<Rightarrow> real vec4 \<Rightarrow> bool" where
  "close e (a, b, c, d) (a', b', c', d') \<longleftrightarrow>
     \<bar>a - a'\<bar> \<le> e \<and> \<bar>b - b'\<bar> \<le> e \<and> \<bar>c - c'\<bar> \<le> e \<and> \<bar>d - d'\<bar> \<le> e"

text \<open>The four coordinates of an array of shape (4,).\<close>

datatype axis = X1 | X2 | X3 | X4

fun coord :: "axis \<Rightarrow> 'a vec4 \<Rightarrow> 'a" where
  "coord X1 (a, b, c, d) = a"
| "coord X2 (a, b, c, d) = b"
| "coord X3 (a, b, c, d) = c"
| "coord X4 (a, b, c, d) = d"

text \<open>
  The nine points \<open>c + u * g1 + w * g2\<close> with \<open>u\<close> and \<open>w\<close> in \<open>{-1, 0, 1}\<close>, \<open>u\<close> varying
  slowest.
\<close>

definition grid :: "point \<Rightarrow> point \<Rightarrow> point \<Rightarrow> point list" where
  "grid c g1 g2 =
     concat (map (\<lambda>u. map (\<lambda>w. vadd c (vadd (smul u g1) (smul w g2))) [- 1, 0, 1]) [- 1, 0, 1])"

section \<open>The lattice\<close>

lemma all_points_map: "all_points = map pt_of [0..80]"
  by (simp add: all_points_def range_py_def pt_of_def upto_rec1)

lemma length_all_points: "length all_points = 81"
  by (simp add: all_points_map)

lemma nth_all_points: "0 \<le> i \<Longrightarrow> i \<le> 80 \<Longrightarrow> all_points ! nat i = pt_of i"
  by (simp add: all_points_map)

lemma list_item_in_range: "0 \<le> i \<Longrightarrow> i \<le> 80 \<Longrightarrow> list_item all_points i = Inr (pt_of i)"
  by (simp add: list_item_def length_all_points nth_all_points)

lemma points_at_in_range: "in_range c \<Longrightarrow> points_at c = Inr (map pt_of c)"
  by (induction c) (simp_all add: list_item_in_range in_range_def)

lemma in_range_append: "in_range (c @ d) \<longleftrightarrow> in_range c \<and> in_range d"
  by (auto simp: in_range_def)

lemma all_points_explicit: "all_points =
  [(-1,-1,-1,-1),(-1,-1,-1,0),(-1,-1,-1,1),(-1,-1,0,-1),(-1,-1,0,0),(-1,-1,0,1),
   (-1,-1,1,-1),(-1,-1,1,0),(-1,-1,1,1),
   (-1,0,-1,-1),(-1,0,-1,0),(-1,0,-1,1),(-1,0,0,-1),(-1,0,0,0),(-1,0,0,1),
   (-1,0,1,-1),(-1,0,1,0),(-1,0,1,1),
   (-1,1,-1,-1),(-1,1,-1,0),(-1,1,-1,1),(-1,1,0,-1),(-1,1,0,0),(-1,1,0,1),
   (-1,1,1,-1),(-1,1,1,0),(-1,1,1,1),
   (0,-1,-1,-1),(0,-1,-1,0),(0,-1,-1,1),(0,-1,0,-1),(0,-1,0,0),(0,-1,0,1),
   (0,-1,1,-1),(0,-1,1,0),(0,-1,1,1),
   (0,0,-1,-1),(0,0,-1,0),(0,0,-1,1),(0,0,0,-1),(0,0,0,0),(0,0,0,1),
   (0,0,1,-1),(0,0,1,0),(0,0,1,1),
   (0,1,-1,-1),(0,1,-1,0),(0,1,-1,1),(0,1,0,-1),(0,1,0,0),(0,1,0,1),
   (0,1,1,-1),(0,1,1,0),(0,1,1,1),
   (1,-1,-1,-1),(1,-1,-1,0),(1,-1,-1,1),(1,-1,0,-1),(1,-1,0,0),(1,-1,0,1),
   (1,-1,1,-1),(1,-1,1,0),(1,-1,1,1),
   (1,0,-1,-1),(1,0,-1,0),(1,0,-1,1),(1,0,0,-1),(1,0,0,0),(1,0,0,1),
   (1,0,1,-1),(1,0,1,0),(1,0,1,1),
   (1,1,-1,-1),(1,1,-1,0),(1,1,-1,1),(1,1,0,-1),(1,1,0,0),(1,1,0,1),
   (1,1,1,-1),(1,1,1,0),(1,1,1,1)]"
  by (simp add: all_points_def range_py_def upto_rec1)

lemma sorted_all_points: "sorted_wrt lex_less all_points"
  unfolding all_points_explicit by simp

lemma lex_less_irrefl: "\<not> lex_less p p"
  by (cases p) simp

lemma sorted_lex_distinct: "sorted_wrt lex_less xs \<Longrightarrow> distinct xs"
  by (induction xs) (auto simp: lex_less_irrefl)

lemma distinct_all_points: "distinct all_points"
  using sorted_all_points by (rule sorted_lex_distinct)

lemma set_all_points: "set all_points = {-1, 0, 1} \<times> {-1, 0, 1} \<times> {-1, 0, 1} \<times> {-1, 0, 1}"
  unfolding all_points_explicit by auto

lemma index_in_nth: "distinct xs \<Longrightarrow> i < length xs \<Longrightarrow> index_in xs (xs ! i) = Some (int i)"
proof (induction xs arbitrary: i)
  case Nil
  then show ?case by simp
next
  case (Cons a xs)
  show ?case
  proof (cases i)
    case 0
    then show ?thesis by simp
  next
    case (Suc k)
    with Cons.prems have "xs ! k \<noteq> a" "k < length xs" "distinct xs" by auto
    with Cons.IH[of k] Suc show ?thesis by simp
  qed
qed

text \<open>
  C7. The lattice has exactly 81 points; its points are exactly the elements of
  \<open>{-1,0,1}^4\<close>, each of them once; the list is strictly sorted in the lexicographic
  order of the 4-tuples; and looking up the point of an index between 0 and 80 and then
  its index gives the index back.
\<close>

theorem lattice_bijection:
  "length all_points = 81 \<and>
   set all_points = {-1, 0, 1} \<times> {-1, 0, 1} \<times> {-1, 0, 1} \<times> {-1, 0, 1} \<and>
   distinct all_points \<and>
   sorted_wrt lex_less all_points \<and>
   (\<forall>i\<in>{0..80}. \<exists>p. list_item all_points i = Inr p \<and> indexOf p = Some i)"
proof -
  have "\<exists>p. list_item all_points i = Inr p \<and> indexOf p = Some i" if "i \<in> {0..80}" for i
  proof -
    from that have i: "0 \<le> i" "i \<le> 80" by simp_all
    then have "nat i < length all_points" by (simp add: length_all_points)
    then have "index_in all_points (all_points ! nat i) = Some (int (nat i))"
      by (rule index_in_nth[OF distinct_all_points])
    with i show ?thesis
      by (simp add: list_item_in_range nth_all_points indexOf_def)
  qed
  then show ?thesis
    using length_all_points set_all_points distinct_all_points sorted_all_points by blast
qed

theorem lattice_bijection_witness:
  "(40::int) \<in> {0..80} \<and> (\<exists>p. list_item all_points 40 = Inr p \<and> indexOf p = Some 40)"
proof -
  have h: "(40::int) \<in> {0..80}" by simp
  from lattice_bijection have "\<forall>i\<in>{0..80}. \<exists>p. list_item all_points i = Inr p \<and> indexOf p = Some i"
    by blast
  with h show ?thesis by blast
qed

text \<open>
  C8, as the code has it. Looking up a point is total for every index from 0 to 80. An
  index from -81 to -1 does not fail: it counts from the end of the list. Every index
  above 80 or below -81 raises IndexError.
\<close>

theorem lookup_total_or_index_error:
  "(0 \<le> i \<and> i \<le> 80 \<longrightarrow> list_item all_points i = Inr (all_points ! nat i)) \<and>
   (- 81 \<le> i \<and> i < 0 \<longrightarrow> list_item all_points i = Inr (all_points ! nat (81 + i))) \<and>
   (i < - 81 \<or> 80 < i \<longrightarrow> list_item all_points i = Inl IndexError)"
  by (simp add: list_item_def length_all_points)

theorem lookup_total_or_index_error_witness:
  "list_item all_points 80 = Inr (1, 1, 1, 1) \<and> list_item all_points (- 81) = Inr (- 1, - 1, - 1, - 1) \<and>
   list_item all_points 81 = Inl IndexError"
proof -
  have a: "all_points ! nat 80 = (1, 1, 1, 1)" "all_points ! nat (81 + (- 81)) = (- 1, - 1, - 1, - 1)"
    by (simp_all add: all_points_explicit)
  show ?thesis
    using lookup_total_or_index_error[of 80] lookup_total_or_index_error[of "- 81"]
      lookup_total_or_index_error[of 81] a
    by simp
qed

text \<open>
  C8, as the specification states it, fails: the index -1 is outside \<open>[0,80]\<close> and the
  lookup returns the last point of the lattice.
\<close>

theorem negative_index_counterexample:
  "\<not> (0 \<le> (- 1 :: int) \<and> (- 1 :: int) \<le> 80) \<and> list_item all_points (- 1) = Inr (1, 1, 1, 1)"
  by (simp add: list_item_def length_all_points all_points_explicit)

section \<open>The fast filter\<close>

lemma range_py_nat: "range_py 1 (int n) = map (\<lambda>k. int (Suc k)) [0..<n - 1]"
proof (rule nth_equalityI)
  show "length (range_py 1 (int n)) = length (map (\<lambda>k. int (Suc k)) [0..<n - 1])"
    by (simp add: range_py_def)
next
  fix i
  assume "i < length (range_py 1 (int n))"
  then have "i < n - 1" by (simp add: range_py_def)
  then show "range_py 1 (int n) ! i = map (\<lambda>k. int (Suc k)) [0..<n - 1] ! i"
    by (simp add: range_py_def)
qed

lemma deltas_nat: "deltas pts = map (\<lambda>k. vsub (pts ! Suc k) (pts ! k)) [0..<length pts - 1]"
  by (simp add: deltas_def range_py_nat o_def nat_add_distrib)

lemma set_deltas: "set (deltas pts) = {vsub (pts ! Suc k) (pts ! k) | k. Suc k < length pts}"
  by (auto simp: deltas_nat)

lemma deltas_snoc_subset: "set (deltas pts) \<subseteq> set (deltas (pts @ [p]))"
  by (auto simp: set_deltas nth_append)

lemma card_deltas_le: "card (set (deltas pts)) \<le> length pts - 1"
  using card_length[of "deltas pts"] by (simp add: deltas_nat)

lemma fast_in_range:
  "in_range c \<Longrightarrow> is_solution_subseq_fast c = Inr (card (set (deltas (map pt_of c))) \<le> 2)"
  by (simp add: is_solution_subseq_fast_def points_at_in_range)

lemma fast_snoc_False:
  assumes "in_range c" "0 \<le> j" "j \<le> 80" and "is_solution_subseq_fast c = Inr False"
  shows "is_solution_subseq_fast (c @ [j]) = Inr False"
proof -
  have "card (set (deltas (map pt_of c))) \<le> card (set (deltas (map pt_of c @ [pt_of j])))"
    by (rule card_mono) (simp_all add: deltas_snoc_subset)
  moreover have "\<not> card (set (deltas (map pt_of c))) \<le> 2"
    using assms by (simp add: fast_in_range)
  moreover have "in_range (c @ [j])"
    using assms by (simp add: in_range_def)
  ultimately show ?thesis by (simp add: fast_in_range)
qed

lemma fast_short: "in_range c \<Longrightarrow> length c \<le> 3 \<Longrightarrow> is_solution_subseq_fast c = Inr True"
  using card_deltas_le[of "map pt_of c"] by (simp add: fast_in_range)

lemma fast_0136: "is_solution_subseq_fast [0, 1, 3, 6] = Inr False"
  by (simp add: fast_in_range in_range_def deltas_nat pt_of_def upt_rec)

text \<open>
  C5. For a candidate with its indices in \<open>[0,80]\<close>, of any length,
  \<open>is_solution_subseq_fast\<close> returns true if and only if the set of the differences
  between consecutive points, taken in index order, has at most 2 elements; for a
  candidate of length 0 or 1 it returns true.
\<close>

theorem fast_filter_spec:
  assumes "in_range c"
  shows "is_solution_subseq_fast c =
           Inr (card {vsub (all_points ! nat (c ! Suc k)) (all_points ! nat (c ! k)) | k.
                      Suc k < length c} \<le> 2) \<and>
         (length c \<le> 1 \<longrightarrow> is_solution_subseq_fast c = Inr True)"
proof -
  have "vsub (all_points ! nat (c ! Suc k)) (all_points ! nat (c ! k)) =
        vsub (map pt_of c ! Suc k) (map pt_of c ! k)" if "Suc k < length c" for k
  proof -
    from that assms have "0 \<le> c ! k" "c ! k \<le> 80" "0 \<le> c ! Suc k" "c ! Suc k \<le> 80"
      by (simp_all add: in_range_def)
    with that show ?thesis by (simp add: nth_all_points)
  qed
  then have "{vsub (all_points ! nat (c ! Suc k)) (all_points ! nat (c ! k)) | k. Suc k < length c} =
             {vsub (map pt_of c ! Suc k) (map pt_of c ! k) | k. Suc k < length c}"
    by (intro Collect_cong) (metis length_map)
  then have "{vsub (all_points ! nat (c ! Suc k)) (all_points ! nat (c ! k)) | k. Suc k < length c} =
             set (deltas (map pt_of c))"
    by (simp only: set_deltas length_map)
  moreover have "length c \<le> 1 \<longrightarrow> is_solution_subseq_fast c = Inr True"
    using assms fast_short[of c] by simp
  ultimately show ?thesis using assms by (simp add: fast_in_range)
qed

theorem fast_filter_spec_witness:
  "in_range [5] \<and> length [5::int] \<le> 1 \<and> is_solution_subseq_fast [5] = Inr True"
proof -
  have h: "in_range [5]" by (simp add: in_range_def)
  from fast_filter_spec[OF h] h show ?thesis by simp
qed

text \<open>
  C3. The fast filter is monotone under extension: if it returns false on a candidate,
  it returns false on every candidate obtained by appending one index.
\<close>

theorem fast_filter_monotone:
  assumes "in_range c" and "0 \<le> j" and "j \<le> 80"
    and "is_solution_subseq_fast c = Inr False"
  shows "is_solution_subseq_fast (c @ [j]) = Inr False"
  using assms by (rule fast_snoc_False)

theorem fast_filter_monotone_witness:
  "in_range [0, 1, 3, 6] \<and> is_solution_subseq_fast [0, 1, 3, 6] = Inr False \<and>
   is_solution_subseq_fast ([0, 1, 3, 6] @ [7]) = Inr False"
proof -
  have h: "in_range [0, 1, 3, 6]" by (simp add: in_range_def)
  have "is_solution_subseq_fast ([0, 1, 3, 6] @ [7]) = Inr False"
    by (rule fast_filter_monotone[OF h _ _ fast_0136]) simp_all
  with h fast_0136 show ?thesis by blast
qed

section \<open>The enumerator\<close>

lemma run_then_plain: "run_then (plain_run ps) (plain_run qs) = plain_run (ps @ qs)"
  by (simp add: run_then_def plain_run_def replicate_add)

lemma no_run_plain: "no_run = plain_run []"
  by (simp add: no_run_def plain_run_def)

lemma foldr_plain:
  "(\<And>i. i \<in> set is \<Longrightarrow> f i = plain_run (g i)) \<Longrightarrow>
   foldr (\<lambda>i rest. run_then (f i) rest) is no_run = plain_run (concat (map g is))"
  by (induction "is") (simp_all add: no_run_plain run_then_plain)

lemma is_solution_subseq_in_range:
  "in_range c \<Longrightarrow> \<exists>b. is_solution_subseq ops c = Inr b"
  by (auto simp: is_solution_subseq_def points_at_in_range Let_def split: option.splits)

lemma find_planes_plain:
  "in_range base \<Longrightarrow> 0 \<le> s \<Longrightarrow>
   find_planes ops s base r = plain_run (map (\<lambda>t. map pt_of (base @ t)) (idx_tails ops s base r))"
proof (induction r arbitrary: s base)
  case 0
  from is_solution_subseq_in_range[OF 0(1)] obtain b where "is_solution_subseq ops base = Inr b" by blast
  with 0 show ?case
    by (cases b) (simp_all add: points_at_in_range plain_run_def no_run_def)
next
  case (Suc r)
  show ?case
  proof (cases "is_solution_subseq_fast base = Inr True")
    case False
    with Suc.prems have "is_solution_subseq_fast base = Inr False"
      by (simp add: fast_in_range)
    then show ?thesis by (simp add: no_run_plain)
  next
    case True
    have rng: "range_py s (int (length all_points) - int (Suc r) + 1) = range_py s (81 - int r)"
      by (simp add: length_all_points)
    have "find_planes ops (i + 1) (base @ [i]) r =
          plain_run (map (\<lambda>t. map pt_of (base @ t)) (map ((#) i) (idx_tails ops (i + 1) (base @ [i]) r)))"
      if "i \<in> set (range_py s (81 - int r))" for i
    proof -
      from that Suc.prems have "0 \<le> i" "i \<le> 80" by (auto simp: range_py_def)
      with Suc.prems have "in_range (base @ [i])" "0 \<le> i + 1" by (simp_all add: in_range_def)
      from Suc.IH[OF this] show ?thesis by (simp add: o_def)
    qed
    from foldr_plain[of "range_py s (81 - int r)" "\<lambda>i. find_planes ops (i + 1) (base @ [i]) r", OF this]
    show ?thesis using True
      by (simp add: length_all_points map_concat o_def)
  qed
qed


lemma deltas_take_subset: "set (deltas (take k pts)) \<subseteq> set (deltas pts)"
  by (auto simp: set_deltas)

lemma fast_take:
  assumes "in_range c" "is_solution_subseq_fast c = Inr True"
  shows "is_solution_subseq_fast (take k c) = Inr True"
proof -
  have "card (set (deltas (take k (map pt_of c)))) \<le> card (set (deltas (map pt_of c)))"
    by (rule card_mono) (simp_all add: deltas_take_subset)
  moreover have "in_range (take k c)"
    using assms(1) by (auto simp: in_range_def dest: in_set_takeD)
  ultimately show ?thesis using assms by (simp add: fast_in_range take_map)
qed

lemma sorted_bounds:
  fixes t :: "int list"
  shows "sorted_wrt (<) (a # t) \<Longrightarrow> \<forall>x\<in>set (a # t). x \<le> hi \<Longrightarrow> a + int (length t) \<le> hi"
proof (induction t arbitrary: a)
  case Nil
  then show ?case by simp
next
  case (Cons b t)
  then have "b + int (length t) \<le> hi" by auto
  moreover from Cons.prems have "a < b" by simp
  ultimately show ?case by simp
qed

lemma idx_tails_iff:
  "t \<in> set (idx_tails ops s base r) \<longleftrightarrow>
     length t = r \<and> sorted_wrt (<) t \<and> (\<forall>i\<in>set t. s \<le> i \<and> i \<le> 80) \<and>
     (\<forall>k<r. is_solution_subseq_fast (base @ take k t) = Inr True) \<and>
     is_solution_subseq ops (base @ t) = Inr True"
proof (induction r arbitrary: s base t)
  case 0
  then show ?case by auto
next
  case (Suc r)
  show ?case
  proof (cases t)
    case Nil
    then show ?thesis by auto
  next
    case (Cons i t')
    have tk: "(\<forall>k<Suc r. is_solution_subseq_fast (base @ take k (i # t')) = Inr True) \<longleftrightarrow>
          is_solution_subseq_fast base = Inr True \<and>
          (\<forall>k<r. is_solution_subseq_fast ((base @ [i]) @ take k t') = Inr True)"
      by (simp add: All_less_Suc2)
    have "t \<in> set (idx_tails ops s base (Suc r)) \<longleftrightarrow>
          is_solution_subseq_fast base = Inr True \<and> s \<le> i \<and> i \<le> 80 - int r \<and>
          t' \<in> set (idx_tails ops (i + 1) (base @ [i]) r)"
      using Cons by (auto simp: range_py_def)
    also have "\<dots> \<longleftrightarrow> is_solution_subseq_fast base = Inr True \<and> s \<le> i \<and> i \<le> 80 - int r \<and>
          length t' = r \<and> sorted_wrt (<) t' \<and> (\<forall>x\<in>set t'. i + 1 \<le> x \<and> x \<le> 80) \<and>
          (\<forall>k<r. is_solution_subseq_fast ((base @ [i]) @ take k t') = Inr True) \<and>
          is_solution_subseq ops ((base @ [i]) @ t') = Inr True"
      by (simp only: Suc.IH)
    also have "\<dots> \<longleftrightarrow> length t = Suc r \<and> sorted_wrt (<) t \<and> (\<forall>x\<in>set t. s \<le> x \<and> x \<le> 80) \<and>
          (\<forall>k<Suc r. is_solution_subseq_fast (base @ take k t) = Inr True) \<and>
          is_solution_subseq ops (base @ t) = Inr True"
      (is "?A \<longleftrightarrow> ?B")
    proof
      assume ?A
      then show ?B unfolding Cons tk by auto
    next
      assume b: ?B
      then have "sorted_wrt (<) (i # t')" "\<forall>x\<in>set (i # t'). x \<le> 80" "length t' = r"
        unfolding Cons by auto
      from sorted_bounds[OF this(1,2)] this(3) have "i \<le> 80 - int r" by simp
      with b show ?A unfolding Cons tk by auto
    qed
    finally show ?thesis .
  qed
qed

lemma sorted_concat_cons:
  fixes F :: "int \<Rightarrow> int list list"
  shows "sorted_wrt (<) is \<Longrightarrow> (\<And>i. i \<in> set is \<Longrightarrow> sorted_wrt (<) (F i)) \<Longrightarrow>
   sorted_wrt (<) (concat (map (\<lambda>i. map ((#) i) (F i)) is))"
  by (induction "is") (auto simp: sorted_wrt_append sorted_wrt_map)

lemma sorted_idx_tails: "sorted_wrt (<) (idx_tails ops s base r)"
proof (induction r arbitrary: s base)
  case 0
  then show ?case by simp
next
  case (Suc r)
  have "sorted_wrt (<) (range_py s (81 - int r))"
    by (simp add: range_py_def strict_sorted_iff)
  then show ?case using Suc.IH by (simp add: sorted_concat_cons)
qed

lemma points_first_nine:
  "points_at [0, 1, 2, 3, 4, 5, 6, 7, 8] = Inr (map pt_of [0, 1, 2, 3, 4, 5, 6, 7, 8])"
  by (rule points_at_in_range) (simp add: in_range_def)

lemma exact_first_nine: "is_solution_subseq exact_ops [0, 1, 2, 3, 4, 5, 6, 7, 8] = Inr True"
  unfolding is_solution_subseq_def points_first_nine
  by (simp add: pt_of_def relative_vectors_def second_basis_def residuals_vanish_def
       orth1_def orth2_def exact_ops_def)

lemma fast_first_nine: "is_solution_subseq_fast [0, 1, 2, 3, 4, 5, 6, 7, 8] = Inr True"
  unfolding is_solution_subseq_fast_def points_first_nine
  by (simp add: pt_of_def deltas_nat upt_rec card_insert_if)

lemma exact_True_points:
  "is_solution_subseq ops base = Inr True \<Longrightarrow> \<exists>plane. points_at base = Inr plane"
  by (cases "points_at base") (auto simp: is_solution_subseq_def split: if_splits)

lemma dotted_run_then: "dotted a \<Longrightarrow> dotted b \<Longrightarrow> dotted (run_then a b)"
  by (simp add: dotted_def run_then_def replicate_add split: option.splits)

lemma dotted_foldr:
  "(\<And>i. i \<in> set is \<Longrightarrow> dotted (f i)) \<Longrightarrow> dotted (foldr (\<lambda>i rest. run_then (f i) rest) is no_run)"
  by (induction "is") (simp_all add: dotted_run_then, simp add: dotted_def no_run_def)

lemma dotted_find_planes: "dotted (find_planes ops s base r)"
proof (induction r arbitrary: s base)
  case 0
  show ?case
  proof (cases "is_solution_subseq ops base")
    case (Inl e)
    then show ?thesis by (simp add: dotted_def raise_run_def)
  next
    case (Inr b)
    show ?thesis
    proof (cases b)
      case True
      with Inr exact_True_points[of ops base] obtain plane where "points_at base = Inr plane"
        by auto
      with Inr True show ?thesis by (simp add: dotted_def)
    next
      case False
      with Inr show ?thesis by (simp add: dotted_def no_run_def)
    qed
  qed
next
  case (Suc r)
  show ?case
  proof (cases "is_solution_subseq_fast base")
    case (Inl e)
    then show ?thesis by (simp add: dotted_def raise_run_def)
  next
    case (Inr b)
    then show ?thesis
      by (cases b) (simp_all add: dotted_foldr Suc.IH, simp add: dotted_def no_run_def)
  qed
qed

text \<open>
  C9, as the code has it. The enumerator does produce output of its own: it prints one
  dot for every plane it yields, and nothing else.
\<close>

theorem prints_one_dot_per_plane:
  "printed (find_planes ops start_idx base remaining) =
     replicate (length (yielded (find_planes ops start_idx base remaining))) CHR ''.''"
  using dotted_find_planes[of ops start_idx base remaining] by (simp add: dotted_def)

lemma first_nine_tail: "[0, 1, 2, 3, 4, 5, 6, 7, 8] \<in> set (idx_tails exact_ops 0 [] 9)"
proof -
  have r: "in_range [0, 1, 2, 3, 4, 5, 6, 7, 8]" by (simp add: in_range_def)
  have "\<forall>k<9. is_solution_subseq_fast ([] @ take k [0, 1, 2, 3, 4, 5, 6, 7, 8]) = Inr True"
    using fast_take[OF r fast_first_nine] by simp
  then show ?thesis
    unfolding idx_tails_iff using exact_first_nine by simp
qed

text \<open>
  C9, as the specification states it, fails: the root call of the search prints.
\<close>

theorem prints_counterexample: "printed (find_planes exact_ops 0 [] 9) \<noteq> []"
proof -
  have "find_planes exact_ops 0 [] 9 =
        plain_run (map (\<lambda>t. map pt_of ([] @ t)) (idx_tails exact_ops 0 [] 9))"
    by (rule find_planes_plain) (simp_all add: in_range_def)
  moreover have "idx_tails exact_ops 0 [] 9 \<noteq> []"
    using first_nine_tail by auto
  ultimately show ?thesis by (simp add: plain_run_def)
qed

lemma lex_pt: "0 \<le> i \<Longrightarrow> i < j \<Longrightarrow> j \<le> 80 \<Longrightarrow> lex_less (pt_of i) (pt_of j)"
  using sorted_wrt_nth_less[OF sorted_all_points, of "nat i" "nat j"]
  by (simp add: length_all_points nth_all_points)

lemma pt_of_inj:
  assumes "0 \<le> i" "i \<le> 80" "0 \<le> j" "j \<le> 80" "pt_of i = pt_of j"
  shows "i = j"
proof (rule ccontr)
  assume "i \<noteq> j"
  then consider "i < j" | "j < i" by linarith
  then show False
  proof cases
    case 1
    from lex_pt[OF assms(1) 1 assms(4)] assms(5) lex_less_irrefl show False by simp
  next
    case 2
    from lex_pt[OF assms(3) 2 assms(2)] assms(5) lex_less_irrefl show False by simp
  qed
qed

lemma map_pt_of_inj:
  assumes "in_range s" "in_range t" "map pt_of s = map pt_of t"
  shows "s = t"
proof -
  have "inj_on pt_of (set s \<union> set t)"
    using assms(1,2) by (intro inj_onI pt_of_inj) (auto simp: in_range_def)
  then show ?thesis using assms(3) by (simp add: inj_on_map_eq_map)
qed

lemma yielded_root:
  "yielded (find_planes ops 0 [] 9) = map (map pt_of) (idx_tails ops 0 [] 9)"
proof -
  have "find_planes ops 0 [] 9 = plain_run (map (\<lambda>t. map pt_of ([] @ t)) (idx_tails ops 0 [] 9))"
    by (rule find_planes_plain) (simp_all add: in_range_def)
  then show ?thesis by (simp add: plain_run_def)
qed

lemma in_range_take: "in_range t \<Longrightarrow> in_range (take k t)"
  unfolding in_range_def by (meson in_set_takeD)

lemma fast_from_depth_4:
  assumes "in_range t"
  shows "(\<forall>k<9. is_solution_subseq_fast ([] @ take k t) = Inr True) \<longleftrightarrow>
         (\<forall>k\<in>{4..8}. is_solution_subseq_fast (take k t) = Inr True)"
proof
  assume "\<forall>k<9. is_solution_subseq_fast ([] @ take k t) = Inr True"
  then show "\<forall>k\<in>{4..8}. is_solution_subseq_fast (take k t) = Inr True" by simp
next
  assume a: "\<forall>k\<in>{4..8}. is_solution_subseq_fast (take k t) = Inr True"
  have "is_solution_subseq_fast (take k t) = Inr True" if "k < 9" for k
  proof (cases "k \<le> 3")
    case True
    show ?thesis using in_range_take[OF assms] by (rule fast_short) (use True in simp)
  next
    case False
    with that have "k \<in> {4..8}" by simp
    with a show ?thesis by blast
  qed
  then show "\<forall>k<9. is_solution_subseq_fast ([] @ take k t) = Inr True" by simp
qed

lemma root_tails_from_depth_4:
  "t \<in> set (idx_tails ops 0 [] 9) \<longleftrightarrow>
     length t = 9 \<and> sorted_wrt (<) t \<and> in_range t \<and>
     (\<forall>k\<in>{4..8}. is_solution_subseq_fast (take k t) = Inr True) \<and>
     is_solution_subseq ops t = Inr True"
proof (cases "in_range t")
  case True
  then have r: "\<forall>i\<in>set t. 0 \<le> i \<and> i \<le> 80" by (simp add: in_range_def)
  show ?thesis
    unfolding idx_tails_iff fast_from_depth_4[OF True] using True r by simp
next
  case False
  then show ?thesis unfolding idx_tails_iff by (auto simp: in_range_def)
qed

text \<open>
  C10. On every candidate of length at most 3 (indices in \<open>[0,80]\<close>) the fast filter
  returns true, so a node of the search at depth 0 to 3 is never pruned: the call runs
  its loop over the children. Depth 4 is the first depth at which a subtree is
  abandoned: the candidate \<open>[0,1,3,6]\<close> fails the filter and its node yields nothing.
  Accordingly the planes that the root call yields are exactly those of the strictly
  increasing sequences of 9 indices in \<open>[0,80]\<close> that pass the exact check and whose
  prefixes of length 4 to 8 pass the fast filter: the result of the search depends on the
  filter at these depths only.
\<close>

theorem no_pruning_before_depth_4:
  "(in_range c \<and> length c \<le> 3 \<longrightarrow>
      is_solution_subseq_fast c = Inr True \<and>
      find_planes ops s c (Suc r) =
        foldr (\<lambda>i rest. run_then (find_planes ops (i + 1) (c @ [i]) r) rest)
          (range_py s (81 - int r)) no_run) \<and>
   is_solution_subseq_fast [0, 1, 3, 6] = Inr False \<and>
   find_planes ops 7 [0, 1, 3, 6] 5 = no_run \<and>
   set (yielded (find_planes ops 0 [] 9)) =
     {map pt_of t | t. length t = 9 \<and> sorted_wrt (<) t \<and> in_range t \<and>
        (\<forall>k\<in>{4..8}. is_solution_subseq_fast (take k t) = Inr True) \<and>
        is_solution_subseq ops t = Inr True}"
proof -
  have "find_planes ops 7 [0, 1, 3, 6] (Suc 4) = no_run"
    by (simp only: find_planes.simps fast_0136) simp
  then have 1: "find_planes ops 7 [0, 1, 3, 6] 5 = no_run" by (simp add: eval_nat_numeral)
  have 2: "in_range c \<and> length c \<le> 3 \<longrightarrow>
      is_solution_subseq_fast c = Inr True \<and>
      find_planes ops s c (Suc r) =
        foldr (\<lambda>i rest. run_then (find_planes ops (i + 1) (c @ [i]) r) rest)
          (range_py s (81 - int r)) no_run"
    by (auto simp: fast_short length_all_points)
  have 3: "set (yielded (find_planes ops 0 [] 9)) =
     {map pt_of t | t. length t = 9 \<and> sorted_wrt (<) t \<and> in_range t \<and>
        (\<forall>k\<in>{4..8}. is_solution_subseq_fast (take k t) = Inr True) \<and>
        is_solution_subseq ops t = Inr True}"
    unfolding yielded_root set_map image_def root_tails_from_depth_4[symmetric] by blast
  from 1 2 3 fast_0136 show ?thesis by blast
qed

theorem no_pruning_before_depth_4_witness:
  "in_range [0, 1, 3] \<and> length [0, 1, 3 :: int] \<le> 3 \<and>
   is_solution_subseq_fast [0, 1, 3] = Inr True \<and>
   map pt_of [0, 1, 2, 3, 4, 5, 6, 7, 8] \<in> set (yielded (find_planes exact_ops 0 [] 9)) \<and>
   (\<forall>t. map pt_of (0 # 1 # 3 # 6 # t) \<notin> set (yielded (find_planes exact_ops 0 [] 9)))"
proof -
  have h: "in_range [0, 1, 3] \<and> length [0, 1, 3 :: int] \<le> 3" by (simp add: in_range_def)
  note inst = no_pruning_before_depth_4[of "[0, 1, 3]" exact_ops]
  have a: "is_solution_subseq_fast [0, 1, 3] = Inr True" using inst h by blast
  let ?s = "[0, 1, 2, 3, 4, 5, 6, 7, 8] :: int list"
  have r: "in_range ?s" by (simp add: in_range_def)
  have f: "\<forall>k\<in>{4..8}. is_solution_subseq_fast (take k ?s) = Inr True"
    using fast_take[OF r fast_first_nine] by blast
  have "length ?s = 9 \<and> sorted_wrt (<) ?s \<and> in_range ?s \<and>
        (\<forall>k\<in>{4..8}. is_solution_subseq_fast (take k ?s) = Inr True) \<and>
        is_solution_subseq exact_ops ?s = Inr True"
    using r f exact_first_nine by simp
  then have "map pt_of ?s \<in> {map pt_of t | t. length t = 9 \<and> sorted_wrt (<) t \<and> in_range t \<and>
        (\<forall>k\<in>{4..8}. is_solution_subseq_fast (take k t) = Inr True) \<and>
        is_solution_subseq exact_ops t = Inr True}" by blast
  then have b: "map pt_of ?s \<in> set (yielded (find_planes exact_ops 0 [] 9))"
    using inst by blast
  have c: "map pt_of (0 # 1 # 3 # 6 # t) \<notin> set (yielded (find_planes exact_ops 0 [] 9))" for t
  proof
    assume "map pt_of (0 # 1 # 3 # 6 # t) \<in> set (yielded (find_planes exact_ops 0 [] 9))"
    then have "map pt_of (0 # 1 # 3 # 6 # t) \<in> {map pt_of t | t. length t = 9 \<and> sorted_wrt (<) t \<and> in_range t \<and>
        (\<forall>k\<in>{4..8}. is_solution_subseq_fast (take k t) = Inr True) \<and>
        is_solution_subseq exact_ops t = Inr True}" using inst by blast
    then obtain t' where t': "map pt_of (0 # 1 # 3 # 6 # t) = map pt_of t'" "length t' = 9"
      "in_range t'" "\<forall>k\<in>{4..8}. is_solution_subseq_fast (take k t') = Inr True" by blast
    have "map pt_of (take 4 t') = map pt_of [0, 1, 3, 6]"
      using arg_cong[OF t'(1), of "take 4"] by (simp add: take_map)
    moreover have "in_range (take 4 t')" using t'(3) by (rule in_range_take)
    moreover have "in_range [0, 1, 3, 6]" by (simp add: in_range_def)
    ultimately have "take 4 t' = [0, 1, 3, 6]" by (intro map_pt_of_inj)
    moreover have "is_solution_subseq_fast (take 4 t') = Inr True" using t'(4) by simp
    ultimately show False using fast_0136 by simp
  qed
  from h a b c show ?thesis by blast
qed

text \<open>
  C6. The planes yielded by the root call are the points of a list of index sequences
  in which no sequence occurs twice, every sequence has 9 strictly increasing indices in
  \<open>[0,80]\<close>, and the sequences come in strictly increasing lexicographic order (the
  order \<open><\<close> of lists).
\<close>

theorem planes_sorted_distinct:
  "\<exists>L. list_all2 (\<lambda>plane c. points_at c = Inr plane) (yielded (find_planes ops 0 [] 9)) L \<and>
       (\<forall>c\<in>set L. length c = 9 \<and> sorted_wrt (<) c \<and> in_range c) \<and>
       sorted_wrt (<) L \<and> distinct L"
proof -
  let ?L = "idx_tails ops 0 [] 9"
  have y: "yielded (find_planes ops 0 [] 9) = map (map pt_of) ?L"
    using find_planes_plain[of "[]" 0 ops 9] by (simp add: in_range_def plain_run_def)
  have m: "length c = 9 \<and> sorted_wrt (<) c \<and> in_range c" if "c \<in> set ?L" for c
    using that unfolding idx_tails_iff in_range_def by simp
  have "list_all2 (\<lambda>plane c. points_at c = Inr plane) (map (map pt_of) ?L) ?L"
    by (simp add: list_all2_map1 list_all2_same m points_at_in_range)
  moreover have "sorted_wrt (<) ?L" by (rule sorted_idx_tails)
  moreover from this have "distinct ?L" by (simp add: strict_sorted_iff)
  ultimately show ?thesis using y m by auto
qed

theorem planes_sorted_distinct_witness:
  "\<exists>L. L \<noteq> [] \<and> list_all2 (\<lambda>plane c. points_at c = Inr plane) (yielded (find_planes exact_ops 0 [] 9)) L \<and>
       (\<forall>c\<in>set L. length c = 9 \<and> sorted_wrt (<) c \<and> in_range c)"
proof -
  have "find_planes exact_ops 0 [] 9 =
        plain_run (map (\<lambda>t. map pt_of ([] @ t)) (idx_tails exact_ops 0 [] 9))"
    by (rule find_planes_plain) (simp_all add: in_range_def)
  moreover have "idx_tails exact_ops 0 [] 9 \<noteq> []"
    using first_nine_tail by auto
  ultimately have ne: "yielded (find_planes exact_ops 0 [] 9) \<noteq> []" by (simp add: plain_run_def)
  from planes_sorted_distinct[of exact_ops] obtain L where
    L: "list_all2 (\<lambda>plane c. points_at c = Inr plane) (yielded (find_planes exact_ops 0 [] 9)) L"
       "\<forall>c\<in>set L. length c = 9 \<and> sorted_wrt (<) c \<and> in_range c"
    by blast
  from L(1) ne have "L \<noteq> []" by auto
  with L show ?thesis by blast
qed

section \<open>Gram determinants of small vectors\<close>

lemma lagrange:
  "gram (b1, b2, b3, b4) (v1, v2, v3, v4) =
     (b1 * v2 - b2 * v1)\<^sup>2 + (b1 * v3 - b3 * v1)\<^sup>2 + (b1 * v4 - b4 * v1)\<^sup>2 +
     (b2 * v3 - b3 * v2)\<^sup>2 + (b2 * v4 - b4 * v2)\<^sup>2 + (b3 * v4 - b4 * v3)\<^sup>2"
  by (simp add: gram_def power2_eq_square algebra_simps)

lemma gram_nonneg: "0 \<le> gram b v"
  by (cases b; cases v) (simp add: lagrange)

lemma gram_zero_minors:
  assumes "gram (b1, b2, b3, b4) (v1, v2, v3, v4) = 0"
  shows "b1 * v2 = b2 * v1" "b1 * v3 = b3 * v1" "b1 * v4 = b4 * v1"
        "b2 * v3 = b3 * v2" "b2 * v4 = b4 * v2" "b3 * v4 = b4 * v3"
proof -
  have s: "(b1 * v2 - b2 * v1)\<^sup>2 + (b1 * v3 - b3 * v1)\<^sup>2 + (b1 * v4 - b4 * v1)\<^sup>2 +
     (b2 * v3 - b3 * v2)\<^sup>2 + (b2 * v4 - b4 * v2)\<^sup>2 + (b3 * v4 - b4 * v3)\<^sup>2 = 0"
    using assms by (simp only: lagrange)
  have "(b1 * v2 - b2 * v1)\<^sup>2 = 0 \<and> (b1 * v3 - b3 * v1)\<^sup>2 = 0 \<and> (b1 * v4 - b4 * v1)\<^sup>2 = 0 \<and>
     (b2 * v3 - b3 * v2)\<^sup>2 = 0 \<and> (b2 * v4 - b4 * v2)\<^sup>2 = 0 \<and> (b3 * v4 - b4 * v3)\<^sup>2 = 0"
    using s zero_le_power2[of "b1 * v2 - b2 * v1"] zero_le_power2[of "b1 * v3 - b3 * v1"]
      zero_le_power2[of "b1 * v4 - b4 * v1"] zero_le_power2[of "b2 * v3 - b3 * v2"]
      zero_le_power2[of "b2 * v4 - b4 * v2"] zero_le_power2[of "b3 * v4 - b4 * v3"]
    by linarith
  then show "b1 * v2 = b2 * v1" "b1 * v3 = b3 * v1" "b1 * v4 = b4 * v1"
        "b2 * v3 = b3 * v2" "b2 * v4 = b4 * v2" "b3 * v4 = b4 * v3"
    by simp_all
qed

text \<open>parallel small lex-positive vectors\<close>
lemma parallel_cases:
  assumes "small b" "small v" "lexpos b" "lexpos v" "gram b v = 0"
  shows "v = b \<or> v = smul 2 b \<or> b = smul 2 v"
proof -
  obtain b1 b2 b3 b4 where be: "b = (b1, b2, b3, b4)" by (cases b)
  obtain v1 v2 v3 v4 where ve: "v = (v1, v2, v3, v4)" by (cases v)
  note m = gram_zero_minors[OF assms(5)[unfolded be ve]]
  have sb: "\<bar>b1\<bar> \<le> 2" "\<bar>b2\<bar> \<le> 2" "\<bar>b3\<bar> \<le> 2" "\<bar>b4\<bar> \<le> 2" using assms(1) be by simp_all
  have sv: "\<bar>v1\<bar> \<le> 2" "\<bar>v2\<bar> \<le> 2" "\<bar>v3\<bar> \<le> 2" "\<bar>v4\<bar> \<le> 2" using assms(2) ve by simp_all
  have pb: "b1 > 0 \<or> b1 = 0 \<and> (b2 > 0 \<or> b2 = 0 \<and> (b3 > 0 \<or> b3 = 0 \<and> b4 > 0))"
    using assms(3) be by (simp add: lexpos_def)
  have pv: "v1 > 0 \<or> v1 = 0 \<and> (v2 > 0 \<or> v2 = 0 \<and> (v3 > 0 \<or> v3 = 0 \<and> v4 > 0))"
    using assms(4) ve by (simp add: lexpos_def)
  consider (a) "b1 > 0" | (b) "b1 = 0" "b2 > 0" | (c) "b1 = 0" "b2 = 0" "b3 > 0"
    | (d) "b1 = 0" "b2 = 0" "b3 = 0" "b4 > 0"
    using pb by blast
  then show ?thesis
  proof cases
    case a
    have "v1 \<noteq> 0"
    proof
      assume z: "v1 = 0"
      with m(1,2,3) a have "v2 = 0" "v3 = 0" "v4 = 0" by simp_all
      with z pv show False by simp
    qed
    with pv sv have t: "v1 = 1 \<or> v1 = 2" by arith
    from a sb have s: "b1 = 1 \<or> b1 = 2" by arith
    from s t m(1,2,3) show ?thesis unfolding be ve
      by (elim disjE) simp_all
  next
    case b
    with m(1) have v1: "v1 = 0" by simp
    have "v2 \<noteq> 0"
    proof
      assume z: "v2 = 0"
      with m(4,5) b have "v3 = 0" "v4 = 0" by simp_all
      with z v1 pv show False by simp
    qed
    with pv sv v1 have t: "v2 = 1 \<or> v2 = 2" by arith
    from b sb have s: "b2 = 1 \<or> b2 = 2" by arith
    from s t m(4,5) v1 b(1) show ?thesis unfolding be ve
      by (elim disjE) simp_all
  next
    case c
    with m(2,4) have v1: "v1 = 0" "v2 = 0" by simp_all
    have "v3 \<noteq> 0"
    proof
      assume z: "v3 = 0"
      with m(6) c have "v4 = 0" by simp
      with z v1 pv show False by simp
    qed
    with pv sv v1 have t: "v3 = 1 \<or> v3 = 2" by arith
    from c sb have s: "b3 = 1 \<or> b3 = 2" by arith
    from s t m(6) v1 c(1,2) show ?thesis unfolding be ve
      by (elim disjE) simp_all
  next
    case d
    with m(3,5,6) have v1: "v1 = 0" "v2 = 0" "v3 = 0" by simp_all
    with pv sv have t: "v4 = 1 \<or> v4 = 2" by arith
    from d sb have s: "b4 = 1 \<or> b4 = 2" by arith
    from s t v1 d(1,2,3) show ?thesis unfolding be ve
      by (elim disjE) simp_all
  qed
qed

section \<open>The exact residual\<close>

lemma dot_to_float: "dot (to_float a) (to_float b) = of_int (dot a b)"
  by (cases a; cases b) simp

lemma dot_commute: "dot a b = dot b (a :: int vec4)"
  by (cases a; cases b) (simp add: mult.commute)

lemma orth1_exact:
  "orth1 exact_ops b1 p = vsub (to_float p) (smul (of_int (dot b1 p) / of_int (dot b1 b1)) (to_float b1))"
  by (cases b1; cases p) (simp add: orth1_def exact_ops_def)

lemma orth2_exact:
  "orth2 exact_ops b v = vsub v (smul (dot b v / dot b b) b)"
  by (cases b; cases v) (simp add: orth2_def exact_ops_def)

lemma dot_sub_smul:
  fixes x y z w :: "real vec4"
  shows "dot (vsub x (smul k y)) (vsub z (smul l w)) =
         dot x z - l * dot x w - k * dot y z + k * l * dot y w"
  by (cases x; cases y; cases z; cases w) (simp add: algebra_simps)

lemma dot_orth1:
  assumes "dot b1 b1 \<noteq> 0"
  shows "dot (orth1 exact_ops b1 x) (orth1 exact_ops b1 y) =
         of_int (dot b1 b1 * dot x y - dot b1 x * dot b1 y) / of_int (dot b1 b1)"
proof -
  have c: "dot x b1 = dot b1 x" by (rule dot_commute)
  show ?thesis
    using assms by (simp add: orth1_exact dot_sub_smul dot_to_float c field_simps)
qed

lemma norm_orth1:
  assumes "dot b1 b1 \<noteq> 0"
  shows "dot (orth1 exact_ops b1 b2) (orth1 exact_ops b1 b2) = of_int (gram b1 b2) / of_int (dot b1 b1)"
  using dot_orth1[OF assms, of b2 b2] by (simp add: gram_def power2_eq_square)

lemma coef_algebra:
  fixes n m d x y G :: real
  assumes "n \<noteq> 0" "G \<noteq> 0" "G = n * m - d * d"
  shows "x / n - ((n * y - d * x) / G) * (d / n) = (x * m - d * y) / G"
proof -
  have "x / n - ((n * y - d * x) / G) * (d / n) = (x * G - (n * y - d * x) * d) / (n * G)"
    using assms(1,2) by (simp add: field_simps)
  also have "x * G - (n * y - d * x) * d = n * (x * m - d * y)"
    unfolding assms(3) by (simp add: algebra_simps)
  finally show ?thesis using assms(1,2) by simp
qed

lemma exact_residual:
  assumes "dot b1 b1 \<noteq> 0" "gram b1 b2 \<noteq> 0"
  shows "orth2 exact_ops (orth1 exact_ops b1 b2) (orth1 exact_ops b1 p) = residual b1 b2 p"
proof -
  let ?n1 = "of_int (dot b1 b1) :: real"
  let ?G = "of_int (gram b1 b2) :: real"
  have q: "dot (orth1 exact_ops b1 b2) (orth1 exact_ops b1 p) /
           dot (orth1 exact_ops b1 b2) (orth1 exact_ops b1 b2) = coef2 b1 b2 p"
    using assms by (simp add: dot_orth1 norm_orth1 coef2_def gram_def power2_eq_square)
  have G: "?G = ?n1 * of_int (dot b2 b2) - of_int (dot b1 b2) * of_int (dot b1 b2)"
    by (simp add: gram_def power2_eq_square)
  have a: "of_int (dot b1 p) / ?n1 - coef2 b1 b2 p * (of_int (dot b1 b2) / ?n1) = coef1 b1 b2 p"
    using coef_algebra[OF _ _ G, of "of_int (dot b1 p)" "of_int (dot b2 p)"] assms
    unfolding coef1_def coef2_def by simp
  obtain b11 b12 b13 b14 where b1: "b1 = (b11, b12, b13, b14)" by (cases b1)
  obtain b21 b22 b23 b24 where b2: "b2 = (b21, b22, b23, b24)" by (cases b2)
  obtain p1 p2 p3 p4 where p: "p = (p1, p2, p3, p4)" by (cases p)
  have "vsub (orth1 exact_ops b1 p) (smul (coef2 b1 b2 p) (orth1 exact_ops b1 b2)) = residual b1 b2 p"
    unfolding residual_def orth1_exact a[symmetric]
    by (simp add: b1 b2 p algebra_simps)
  then show ?thesis by (simp add: orth2_exact q)
qed

lemma dot_linear:
  fixes a b c :: "real vec4"
  shows "dot a (vadd (smul x b) (smul y c)) = x * dot a b + y * dot a c"
  by (cases a; cases b; cases c) (simp add: algebra_simps)

lemma vsub_zero_iff: "vsub a b = (0, 0, 0, 0) \<longleftrightarrow> a = (b :: real vec4)"
  by (cases a; cases b) auto

lemma residual_zero_iff:
  assumes "gram b1 b2 \<noteq> 0"
  shows "residual b1 b2 p = (0, 0, 0, 0) \<longleftrightarrow> in_span b1 b2 p"
proof
  assume "residual b1 b2 p = (0, 0, 0, 0)"
  then show "in_span b1 b2 p"
    unfolding residual_def vsub_zero_iff in_span_def by blast
next
  assume "in_span b1 b2 p"
  then obtain x y where p: "to_float p = vadd (smul x (to_float b1)) (smul y (to_float b2))"
    unfolding in_span_def by blast
  let ?n = "of_int (dot b1 b1) :: real" and ?m = "of_int (dot b2 b2) :: real"
    and ?d = "of_int (dot b1 b2) :: real"
  have G: "of_int (gram b1 b2) = ?n * ?m - ?d * ?d"
    by (simp add: gram_def power2_eq_square)
  have d21: "of_int (dot b2 b1) = ?d" by (simp add: dot_commute)
  have 1: "of_int (dot b1 p) = x * ?n + y * ?d"
    unfolding dot_to_float[symmetric] p dot_linear ..
  have 2: "of_int (dot b2 p) = x * ?d + y * ?m"
    unfolding dot_to_float[symmetric] p dot_linear
    by (simp add: dot_to_float d21)
  have g0: "?n * ?m - ?d * ?d \<noteq> 0" using assms G by (metis of_int_eq_0_iff)
  have "of_int (dot b1 p) * ?m - ?d * of_int (dot b2 p) = x * (?n * ?m - ?d * ?d)"
    unfolding 1 2 by (simp add: algebra_simps)
  then have c1: "coef1 b1 b2 p = x"
    unfolding coef1_def using g0 G by simp
  have "?n * of_int (dot b2 p) - ?d * of_int (dot b1 p) = y * (?n * ?m - ?d * ?d)"
    unfolding 1 2 by (simp add: algebra_simps)
  then have c2: "coef2 b1 b2 p = y"
    unfolding coef2_def using g0 G by simp
  show "residual b1 b2 p = (0, 0, 0, 0)"
    unfolding residual_def c1 c2 vsub_zero_iff by (rule p)
qed

lemma small_dot_le: "small v \<Longrightarrow> dot v v \<le> 16"
proof (cases v)
  case (fields a b c d)
  assume "small v"
  with fields have "\<bar>a\<bar> \<le> 2" "\<bar>b\<bar> \<le> 2" "\<bar>c\<bar> \<le> 2" "\<bar>d\<bar> \<le> 2" by simp_all
  then have "a * a \<le> 4" "b * b \<le> 4" "c * c \<le> 4" "d * d \<le> 4"
    using abs_le_square_iff[of _ "2::int"] by (simp_all add: power2_eq_square)
  with fields show ?thesis by simp
qed

lemma dot_self_nonneg: "0 \<le> dot b (b :: int vec4)"
  by (cases b) simp

lemma gram_le: "small b1 \<Longrightarrow> small b2 \<Longrightarrow> gram b1 b2 \<le> 256"
proof -
  assume s: "small b1" "small b2"
  have "dot b1 b1 * dot b2 b2 \<le> 16 * 16"
    by (rule mult_mono) (simp_all add: small_dot_le s dot_self_nonneg)
  moreover have "0 \<le> (dot b1 b2)\<^sup>2" by simp
  ultimately show ?thesis unfolding gram_def by linarith
qed

lemma smul_vsub_vadd:
  fixes P B1 B2 :: "real vec4"
  shows "smul g (vsub P (vadd (smul c1 B1) (smul c2 B2))) =
         vsub (smul g P) (vadd (smul (g * c1) B1) (smul (g * c2) B2))"
  by (cases P; cases B1; cases B2) (simp add: algebra_simps)

lemma to_float_smul: "smul (of_int k) (to_float v) = to_float (smul k v)"
  by (cases v) simp

lemma to_float_vadd: "vadd (to_float v) (to_float w) = to_float (vadd v w)"
  by (cases v; cases w) simp

lemma to_float_vsub: "vsub (to_float v) (to_float w) = to_float (vsub v w)"
  by (cases v; cases w) simp

lemma residual_integral:
  assumes "gram b1 b2 \<noteq> 0"
  shows "\<exists>z. smul (of_int (gram b1 b2)) (residual b1 b2 p) = to_float z"
proof -
  let ?G = "gram b1 b2"
  let ?A = "dot b1 p * dot b2 b2 - dot b1 b2 * dot b2 p"
  let ?B = "dot b1 b1 * dot b2 p - dot b1 b2 * dot b1 p"
  have g: "(of_int ?G :: real) \<noteq> 0" using assms by simp
  have c: "of_int ?G * coef1 b1 b2 p = of_int ?A" "of_int ?G * coef2 b1 b2 p = of_int ?B"
    unfolding coef1_def coef2_def using g by simp_all
  have "smul (of_int ?G) (residual b1 b2 p) =
        to_float (vsub (smul ?G p) (vadd (smul ?A b1) (smul ?B b2)))"
    unfolding residual_def smul_vsub_vadd c
    by (simp only: to_float_smul to_float_vadd to_float_vsub)
  then show ?thesis ..
qed

lemma int_gap: "\<bar>of_int z :: real\<bar> < 1 \<Longrightarrow> z = 0"
  by linarith

lemma residual_gap:
  assumes "0 < gram b1 b2" "small b1" "small b2" "bounded e (residual b1 b2 p)" "e < 1 / 256"
  shows "residual b1 b2 p = (0, 0, 0, 0)"
proof -
  let ?G = "of_int (gram b1 b2) :: real"
  obtain z where z: "smul ?G (residual b1 b2 p) = to_float z"
    using residual_integral[of b1 b2 p] assms(1) by auto
  obtain r1 r2 r3 r4 where r: "residual b1 b2 p = (r1, r2, r3, r4)" by (cases "residual b1 b2 p")
  obtain z1 z2 z3 z4 where zz: "z = (z1, z2, z3, z4)" by (cases z)
  have G: "0 < ?G" "?G \<le> 256" using assms(1) gram_le[OF assms(2,3)] by simp_all
  have small: "\<bar>?G * x\<bar> < 1" if "\<bar>x\<bar> \<le> e" for x
  proof -
    have "\<bar>?G * x\<bar> = ?G * \<bar>x\<bar>" using G by (simp add: abs_mult)
    also have "\<dots> \<le> 256 * \<bar>x\<bar>" using G by (simp add: mult_right_mono)
    also have "\<dots> < 1" using that assms(5) by simp
    finally show ?thesis .
  qed
  from z r zz have e: "?G * r1 = of_int z1" "?G * r2 = of_int z2" "?G * r3 = of_int z3" "?G * r4 = of_int z4"
    by simp_all
  from assms(4) r have b: "\<bar>r1\<bar> \<le> e" "\<bar>r2\<bar> \<le> e" "\<bar>r3\<bar> \<le> e" "\<bar>r4\<bar> \<le> e" by simp_all
  have "z1 = 0" "z2 = 0" "z3 = 0" "z4 = 0"
    using small[OF b(1)] small[OF b(2)] small[OF b(3)] small[OF b(4)] e
    by (simp_all add: int_gap)
  with e G show ?thesis unfolding r by simp
qed

section \<open>Bounds\<close>

lemma cs_real:
  fixes a b :: "real vec4"
  shows "(dot a b)\<^sup>2 \<le> dot a a * dot b b"
proof -
  obtain a1 a2 a3 a4 where a: "a = (a1, a2, a3, a4)" by (cases a)
  obtain b1 b2 b3 b4 where b: "b = (b1, b2, b3, b4)" by (cases b)
  have "dot a a * dot b b - (dot a b)\<^sup>2 =
     (a1 * b2 - a2 * b1)\<^sup>2 + (a1 * b3 - a3 * b1)\<^sup>2 + (a1 * b4 - a4 * b1)\<^sup>2 +
     (a2 * b3 - a3 * b2)\<^sup>2 + (a2 * b4 - a4 * b2)\<^sup>2 + (a3 * b4 - a4 * b3)\<^sup>2"
    unfolding a b by (simp add: power2_eq_square algebra_simps)
  moreover have "0 \<le> (a1 * b2 - a2 * b1)\<^sup>2 + (a1 * b3 - a3 * b1)\<^sup>2 + (a1 * b4 - a4 * b1)\<^sup>2 +
     (a2 * b3 - a3 * b2)\<^sup>2 + (a2 * b4 - a4 * b2)\<^sup>2 + (a3 * b4 - a4 * b3)\<^sup>2"
    by (intro add_nonneg_nonneg zero_le_power2)
  ultimately show ?thesis by linarith
qed

lemma bounded_of_norm:
  fixes v :: "real vec4"
  assumes "dot v v \<le> M\<^sup>2" "0 \<le> M"
  shows "bounded M v"
proof -
  obtain a b c d where v: "v = (a, b, c, d)" by (cases v)
  have s: "a\<^sup>2 + b\<^sup>2 + c\<^sup>2 + d\<^sup>2 \<le> M\<^sup>2" using assms(1) v by (simp add: power2_eq_square)
  have "a\<^sup>2 \<le> M\<^sup>2" "b\<^sup>2 \<le> M\<^sup>2" "c\<^sup>2 \<le> M\<^sup>2" "d\<^sup>2 \<le> M\<^sup>2"
    using s zero_le_power2[of a] zero_le_power2[of b] zero_le_power2[of c] zero_le_power2[of d]
    by linarith+
  then show ?thesis using assms(2) v by (simp add: abs_le_square_iff[symmetric])
qed

lemma gram_le_mult: "gram b x \<le> dot b b * dot x x"
  unfolding gram_def using zero_le_power2[of "dot b x"] by linarith

lemma small_bounded: "small v \<Longrightarrow> bounded 2 (to_float v)"
  by (cases v) (auto simp: abs_le_iff)

text \<open>exact bounds\<close>

lemma coef_bound:
  assumes "small b1" "small x" "dot b1 b1 \<noteq> 0"
  shows "\<bar>of_int (dot b1 x) / of_int (dot b1 b1) :: real\<bar> \<le> 4"
proof -
  have n: "1 \<le> dot b1 b1" using dot_self_nonneg[of b1] assms(3) by linarith
  have "(dot b1 x)\<^sup>2 \<le> dot b1 b1 * dot x x"
    using gram_nonneg[of b1 x] unfolding gram_def by linarith
  also have "\<dots> \<le> dot b1 b1 * 16"
    using small_dot_le[OF assms(2)] n by (simp add: mult_left_mono)
  also have "\<dots> \<le> dot b1 b1 * (16 * dot b1 b1)"
    using n by (simp add: mult_left_mono)
  finally have "(dot b1 x)\<^sup>2 \<le> (4 * dot b1 b1)\<^sup>2" by (simp add: power2_eq_square)
  then have "\<bar>dot b1 x\<bar> \<le> \<bar>4 * dot b1 b1\<bar>"
    by (rule iffD2[OF abs_le_square_iff])
  then have "\<bar>dot b1 x\<bar> \<le> 4 * dot b1 b1"
    using n by simp
  then have "\<bar>of_int (dot b1 x) :: real\<bar> \<le> 4 * of_int (dot b1 b1)"
    by (metis of_int_abs of_int_le_iff of_int_mult of_int_numeral)
  then show ?thesis using n by (simp add: field_simps)
qed

lemma orth1_exact_bounded:
  assumes "small b1" "small x" "dot b1 b1 \<noteq> 0"
  shows "bounded 4 (orth1 exact_ops b1 x)"
proof (rule bounded_of_norm)
  have n: "1 \<le> dot b1 b1" using dot_self_nonneg[of b1] assms(3) by linarith
  have "gram b1 x \<le> dot b1 b1 * 16"
    using gram_le_mult[of b1 x] small_dot_le[OF assms(2)] n
    by (meson mult_left_mono order_trans zero_le_one)
  then have "(of_int (gram b1 x) :: real) \<le> of_int (dot b1 b1) * 16"
    by (metis of_int_le_iff of_int_mult of_int_numeral)
  then show "dot (orth1 exact_ops b1 x) (orth1 exact_ops b1 x) \<le> 4\<^sup>2"
    using n by (simp add: norm_orth1[OF assms(3)] field_simps)
qed simp

lemma norm2_lower:
  assumes "small b1" "0 < gram b1 b2" "dot b1 b1 \<noteq> 0"
  shows "1 / 16 \<le> dot (orth1 exact_ops b1 b2) (orth1 exact_ops b1 b2)"
proof -
  have n: "1 \<le> dot b1 b1" "dot b1 b1 \<le> 16"
    using dot_self_nonneg[of b1] assms(3) small_dot_le[OF assms(1)] by linarith+
  have g: "1 \<le> gram b1 b2" using assms(2) by linarith
  have "(1::real) / 16 \<le> 1 / of_int (dot b1 b1)"
    using n by (simp add: field_simps)
  also have "\<dots> \<le> of_int (gram b1 b2) / of_int (dot b1 b1)"
    using n g by (simp add: divide_right_mono)
  finally show ?thesis by (simp add: norm_orth1[OF assms(3)])
qed

lemma quot_bound:
  fixes a b :: "real vec4"
  assumes "1 / 16 \<le> dot a a" "dot b b \<le> 16"
  shows "\<bar>dot a b / dot a a\<bar> \<le> 16"
proof -
  let ?n = "dot a a"
  have n: "0 < ?n" using assms(1) by linarith
  have "(dot a b)\<^sup>2 \<le> ?n * dot b b" by (rule cs_real)
  also have "\<dots> \<le> ?n * 16" using assms(2) n by (simp add: mult_left_mono)
  also have "\<dots> \<le> ?n * (256 * ?n)" using assms(1) n by (simp add: mult_left_mono)
  finally have "(dot a b)\<^sup>2 \<le> (16 * ?n)\<^sup>2" by (simp add: power2_eq_square)
  then have "\<bar>dot a b\<bar> \<le> \<bar>16 * ?n\<bar>"
    by (rule iffD2[OF abs_le_square_iff])
  then have "\<bar>dot a b\<bar> \<le> 16 * ?n" using n by simp
  then show ?thesis using n by (simp add: field_simps)
qed

section \<open>Rounding errors of the orthogonalisation\<close>

lemma fp_div: "fp_accurate u ops \<Longrightarrow> y \<noteq> 0 \<Longrightarrow> \<bar>fdiv ops x y - x / y\<bar> \<le> u * \<bar>x / y\<bar>"
  and fp_mul: "fp_accurate u ops \<Longrightarrow> \<bar>fmul ops x y - x * y\<bar> \<le> u * \<bar>x * y\<bar>"
  and fp_sub: "fp_accurate u ops \<Longrightarrow> \<bar>fsub ops x y - (x - y)\<bar> \<le> u * \<bar>x - y\<bar>"
  and fp_dot: "fp_accurate u ops \<Longrightarrow> \<bar>fdot ops v w - dot v w\<bar> \<le> 5 * u * dot (vabs v) (vabs w)"
  and fp_atol: "fp_accurate u ops \<Longrightarrow> \<bar>atol ops - 1 / 10 ^ 8\<bar> \<le> u / 10 ^ 8"
  unfolding fp_accurate_def by blast+

lemma prod_err:
  fixes x y x' y' :: real
  assumes "\<bar>x' - x\<bar> \<le> a" "\<bar>y' - y\<bar> \<le> b" "\<bar>x\<bar> \<le> X" "\<bar>y'\<bar> \<le> Y"
  shows "\<bar>x' * y' - x * y\<bar> \<le> a * Y + X * b"
proof -
  have "x' * y' - x * y = (x' - x) * y' + x * (y' - y)" by (simp add: algebra_simps)
  then have "\<bar>x' * y' - x * y\<bar> \<le> \<bar>x' - x\<bar> * \<bar>y'\<bar> + \<bar>x\<bar> * \<bar>y' - y\<bar>"
    by (metis abs_mult abs_triangle_ineq)
  also have "\<dots> \<le> a * Y + X * b"
    using assms by (intro add_mono mult_mono) (auto intro: order_trans[OF abs_ge_zero])
  finally show ?thesis .
qed

lemma abs_mult_le:
  fixes x y :: real
  shows "\<bar>x\<bar> \<le> X \<Longrightarrow> \<bar>y\<bar> \<le> Y \<Longrightarrow> \<bar>x * y\<bar> \<le> X * Y"
  unfolding abs_mult by (rule mult_mono) (auto intro: order_trans[OF abs_ge_zero])

text \<open>one component of orth1\<close>
lemma orth1_component:
  assumes acc: "fp_accurate u ops" and u: "0 \<le> u" "u \<le> 1 / 10 ^ 15"
    and c: "\<bar>c\<bar> \<le> 4" and b: "\<bar>\<beta>\<bar> \<le> 2" and x: "\<bar>\<xi>\<bar> \<le> 2"
    and c': "\<bar>c' - c\<bar> \<le> u * \<bar>c\<bar>"
  shows "\<bar>fsub ops \<xi> (fmul ops c' \<beta>) - (\<xi> - c * \<beta>)\<bar> \<le> 30 * u"
proof -
  have "u * \<bar>c\<bar> \<le> u * 4" using c u by (simp add: mult_left_mono)
  with c' have ce: "\<bar>c' - c\<bar> \<le> 4 * u" by simp
  have us: "u \<le> 1 / 1000" using u by simp
  with ce c u have cb: "\<bar>c'\<bar> \<le> 5" by linarith
  have pb: "\<bar>c' * \<beta>\<bar> \<le> 5 * 2" using cb b by (rule abs_mult_le)
  have "u * \<bar>c' * \<beta>\<bar> \<le> u * 10" using pb u by (simp add: mult_left_mono)
  with fp_mul[OF acc, of c' \<beta>] have m1: "\<bar>fmul ops c' \<beta> - c' * \<beta>\<bar> \<le> 10 * u" by simp
  have "\<bar>c' * \<beta> - c * \<beta>\<bar> \<le> (4 * u) * 2 + 4 * 0"
    using ce _ c b by (rule prod_err) simp
  then have m2: "\<bar>c' * \<beta> - c * \<beta>\<bar> \<le> 8 * u" by simp
  have cb2: "\<bar>c * \<beta>\<bar> \<le> 4 * 2" using c b by (rule abs_mult_le)
  from m1 m2 have m: "\<bar>fmul ops c' \<beta> - c * \<beta>\<bar> \<le> 18 * u" by linarith
  with cb2 u us have "\<bar>\<xi> - fmul ops c' \<beta>\<bar> \<le> 11" using x by linarith
  then have "u * \<bar>\<xi> - fmul ops c' \<beta>\<bar> \<le> u * 11" using u by (simp add: mult_left_mono)
  with fp_sub[OF acc, of \<xi> "fmul ops c' \<beta>"]
  have "\<bar>fsub ops \<xi> (fmul ops c' \<beta>) - (\<xi> - fmul ops c' \<beta>)\<bar> \<le> 11 * u" by simp
  with m show ?thesis by linarith
qed

lemma orth1_vec:
  assumes acc: "fp_accurate u ops" and u: "0 \<le> u" "u \<le> 1 / 10 ^ 15"
    and c: "\<bar>c\<bar> \<le> 4" and c': "\<bar>c' - c\<bar> \<le> u * \<bar>c\<bar>"
    and B: "bounded 2 B" and X: "bounded 2 X"
  shows "close (30 * u) (fvsub ops X (fscale ops c' B)) (vsub X (smul c B))"
proof -
  note k = orth1_component[OF acc u c _ _ c']
  obtain b1 b2 b3 b4 where b: "B = (b1, b2, b3, b4)" by (cases B)
  obtain x1 x2 x3 x4 where x: "X = (x1, x2, x3, x4)" by (cases X)
  from B X show ?thesis unfolding b x by (simp add: k)
qed

lemma orth1_close:
  assumes acc: "fp_accurate u ops" and u: "0 \<le> u" "u \<le> 1 / 10 ^ 15"
    and s: "small b1" "small x" and n: "dot b1 b1 \<noteq> 0"
  shows "close (30 * u) (orth1 ops b1 x) (orth1 exact_ops b1 x)"
proof -
  let ?c = "of_int (dot b1 x) / of_int (dot b1 b1) :: real"
  let ?c' = "fdiv ops (of_int (dot b1 x)) (of_int (dot b1 b1))"
  have c: "\<bar>?c\<bar> \<le> 4" using s n by (rule coef_bound)
  have c': "\<bar>?c' - ?c\<bar> \<le> u * \<bar>?c\<bar>" using n by (intro fp_div[OF acc]) simp
  have "close (30 * u) (fvsub ops (to_float x) (fscale ops ?c' (to_float b1)))
          (vsub (to_float x) (smul ?c (to_float b1)))"
    using acc u c c' small_bounded[OF s(1)] small_bounded[OF s(2)] by (rule orth1_vec)
  then show ?thesis
    by (subst orth1_exact) (simp add: orth1_def)
qed

lemma comp_dot:
  fixes x y x' y' e :: real
  assumes "\<bar>x' - x\<bar> \<le> e" "\<bar>y' - y\<bar> \<le> e" "\<bar>x\<bar> \<le> 4" "\<bar>y\<bar> \<le> 4" "0 \<le> e" "e \<le> 1 / 10"
  shows "\<bar>x' * y' - x * y\<bar> \<le> 9 * e" and "\<bar>x'\<bar> * \<bar>y'\<bar> \<le> 17"
proof -
  have x': "\<bar>x'\<bar> \<le> 41 / 10" and y': "\<bar>y'\<bar> \<le> 41 / 10" using assms by linarith+
  have "\<bar>x' * y' - x * y\<bar> \<le> e * (41 / 10) + 4 * e"
    using assms(1,2,3) y' by (rule prod_err)
  then show "\<bar>x' * y' - x * y\<bar> \<le> 9 * e" using assms(5) by linarith
  have "\<bar>x' * y'\<bar> \<le> (41 / 10) * (41 / 10)" using x' y' by (rule abs_mult_le)
  then show "\<bar>x'\<bar> * \<bar>y'\<bar> \<le> 17" by (simp add: abs_mult)
qed

lemma dot_close:
  assumes acc: "fp_accurate u ops" and u: "0 \<le> u"
    and a: "close e a' a" and b: "close e b' b"
    and ba: "bounded 4 a" and bb: "bounded 4 b" and e: "0 \<le> e" "e \<le> 1 / 10"
  shows "\<bar>fdot ops a' b' - dot a b\<bar> \<le> 340 * u + 36 * e"
proof -
  obtain a1 a2 a3 a4 where ae: "a = (a1, a2, a3, a4)" by (cases a)
  obtain b1 b2 b3 b4 where be: "b = (b1, b2, b3, b4)" by (cases b)
  obtain a1' a2' a3' a4' where ae': "a' = (a1', a2', a3', a4')" by (cases a')
  obtain b1' b2' b3' b4' where be': "b' = (b1', b2', b3', b4')" by (cases b')
  note c1 = comp_dot[of a1' a1 e b1' b1] and c2 = comp_dot[of a2' a2 e b2' b2]
    and c3 = comp_dot[of a3' a3 e b3' b3] and c4 = comp_dot[of a4' a4 e b4' b4]
  have h: "\<bar>a1' - a1\<bar> \<le> e" "\<bar>a2' - a2\<bar> \<le> e" "\<bar>a3' - a3\<bar> \<le> e" "\<bar>a4' - a4\<bar> \<le> e"
    "\<bar>b1' - b1\<bar> \<le> e" "\<bar>b2' - b2\<bar> \<le> e" "\<bar>b3' - b3\<bar> \<le> e" "\<bar>b4' - b4\<bar> \<le> e"
    "\<bar>a1\<bar> \<le> 4" "\<bar>a2\<bar> \<le> 4" "\<bar>a3\<bar> \<le> 4" "\<bar>a4\<bar> \<le> 4"
    "\<bar>b1\<bar> \<le> 4" "\<bar>b2\<bar> \<le> 4" "\<bar>b3\<bar> \<le> 4" "\<bar>b4\<bar> \<le> 4"
    using a b ba bb unfolding ae be ae' be' by simp_all
  have p: "\<bar>a1' * b1' - a1 * b1\<bar> \<le> 9 * e" "\<bar>a2' * b2' - a2 * b2\<bar> \<le> 9 * e"
    "\<bar>a3' * b3' - a3 * b3\<bar> \<le> 9 * e" "\<bar>a4' * b4' - a4 * b4\<bar> \<le> 9 * e"
    using c1(1)[OF h(1) h(5) h(9) h(13) e] c2(1)[OF h(2) h(6) h(10) h(14) e]
      c3(1)[OF h(3) h(7) h(11) h(15) e] c4(1)[OF h(4) h(8) h(12) h(16) e] by blast+
  have q: "\<bar>a1'\<bar> * \<bar>b1'\<bar> \<le> 17" "\<bar>a2'\<bar> * \<bar>b2'\<bar> \<le> 17" "\<bar>a3'\<bar> * \<bar>b3'\<bar> \<le> 17" "\<bar>a4'\<bar> * \<bar>b4'\<bar> \<le> 17"
    using c1(2)[OF h(1) h(5) h(9) h(13) e] c2(2)[OF h(2) h(6) h(10) h(14) e]
      c3(2)[OF h(3) h(7) h(11) h(15) e] c4(2)[OF h(4) h(8) h(12) h(16) e] by blast+
  have "dot (vabs a') (vabs b') \<le> 68" unfolding ae' be' using q by simp
  then have "5 * u * dot (vabs a') (vabs b') \<le> 5 * u * 68"
    using u by (intro mult_left_mono) simp_all
  with fp_dot[OF acc, of a' b'] have 1: "\<bar>fdot ops a' b' - dot a' b'\<bar> \<le> 340 * u" by simp
  have 2: "\<bar>dot a' b' - dot a b\<bar> \<le> 36 * e" unfolding ae be ae' be' using p by simp
  from 1 2 show ?thesis by linarith
qed

lemma quot_close:
  fixes n n' e e' E :: real
  assumes acc: "fp_accurate u ops" and u: "0 \<le> u" "u \<le> 1 / 10 ^ 15"
    and n: "1 / 16 \<le> n" and n': "\<bar>n' - n\<bar> \<le> E" and e': "\<bar>e' - e\<bar> \<le> E"
    and q: "\<bar>e / n\<bar> \<le> 16" and E: "E \<le> 1 / 1000"
  shows "1 / 17 \<le> n'" and "\<bar>fdiv ops e' n' - e / n\<bar> \<le> 289 * E + 17 * u"
proof -
  show n17: "1 / 17 \<le> n'" using n n' E by linarith
  then have n0: "0 < n'" by linarith
  have E0: "0 \<le> E" using n' by linarith
  have n00: "0 < n" using n by linarith
  have id: "e' / n' - e / n = ((e' - e) + (e / n) * (n - n')) / n'"
    using n0 n00 by (simp add: field_simps)
  have "\<bar>(e / n) * (n - n')\<bar> \<le> 16 * E"
    using q by (rule abs_mult_le) (use n' in linarith)
  with e' have num: "\<bar>(e' - e) + (e / n) * (n - n')\<bar> \<le> 17 * E" by linarith
  have "\<bar>e' / n' - e / n\<bar> = \<bar>(e' - e) + (e / n) * (n - n')\<bar> / n'"
    unfolding id using n0 by (simp add: abs_divide)
  also have "\<dots> \<le> (17 * E) / n'" using num n0 by (simp add: divide_right_mono)
  also have "\<dots> \<le> (17 * E) * 17"
  proof -
    have "1 / n' \<le> 17" using n17 n0 by (simp add: field_simps)
    then have "(17 * E) * (1 / n') \<le> (17 * E) * 17"
      using E0 by (intro mult_left_mono) simp_all
    then show ?thesis by simp
  qed
  finally have d: "\<bar>e' / n' - e / n\<bar> \<le> 289 * E" by simp
  with q E have "\<bar>e' / n'\<bar> \<le> 17" by linarith
  then have "u * \<bar>e' / n'\<bar> \<le> u * 17" using u(1) by (rule mult_left_mono)
  with fp_div[OF acc, of n' e'] n0 have "\<bar>fdiv ops e' n' - e' / n'\<bar> \<le> 17 * u" by simp
  with d show "\<bar>fdiv ops e' n' - e / n\<bar> \<le> 289 * E + 17 * u" by linarith
qed

lemma orth2_component:
  fixes q q' b b' w w' :: real
  assumes acc: "fp_accurate u ops" and u: "0 \<le> u" "u \<le> 1 / 10 ^ 15"
    and q': "\<bar>q' - q\<bar> \<le> 420000 * u" and q: "\<bar>q\<bar> \<le> 16"
    and b': "\<bar>b' - b\<bar> \<le> 30 * u" and b: "\<bar>b\<bar> \<le> 4"
    and w': "\<bar>w' - w\<bar> \<le> 30 * u" and wb: "\<bar>w\<bar> \<le> 4"
  shows "\<bar>fsub ops w' (fmul ops q' b') - (w - q * b)\<bar> \<le> 2000000 * u"
proof -
  have us: "u \<le> 1 / 100000000" using u by simp
  have bb: "\<bar>b'\<bar> \<le> 41 / 10" using b b' us by linarith
  have qb: "\<bar>q'\<bar> \<le> 17" using q q' us by linarith
  have "\<bar>q' * b' - q * b\<bar> \<le> (420000 * u) * (41 / 10) + 16 * (30 * u)"
    using q' b' q bb by (rule prod_err)
  then have 1: "\<bar>q' * b' - q * b\<bar> \<le> 1722480 * u" by simp
  have "\<bar>q' * b'\<bar> \<le> 17 * (41 / 10)" using qb bb by (rule abs_mult_le)
  then have "u * \<bar>q' * b'\<bar> \<le> u * 70" using u by (intro mult_left_mono) simp_all
  with fp_mul[OF acc, of q' b'] have 2: "\<bar>fmul ops q' b' - q' * b'\<bar> \<le> 70 * u" by simp
  have "\<bar>q * b\<bar> \<le> 16 * 4" using q b by (rule abs_mult_le)
  with 1 2 us wb w' have "\<bar>w' - fmul ops q' b'\<bar> \<le> 70" by linarith
  then have "u * \<bar>w' - fmul ops q' b'\<bar> \<le> u * 70" using u by (intro mult_left_mono) simp_all
  with fp_sub[OF acc, of w' "fmul ops q' b'"]
  have 3: "\<bar>fsub ops w' (fmul ops q' b') - (w' - fmul ops q' b')\<bar> \<le> 70 * u" by simp
  from 1 2 3 w' u show ?thesis by linarith
qed

lemma orth2_vec:
  assumes acc: "fp_accurate u ops" and u: "0 \<le> u" "u \<le> 1 / 10 ^ 15"
    and q': "\<bar>q' - q\<bar> \<le> 420000 * u" and q: "\<bar>q\<bar> \<le> 16"
    and b': "close (30 * u) B' B" and b: "bounded 4 B"
    and w': "close (30 * u) W' W" and wb: "bounded 4 W"
  shows "close (2000000 * u) (fvsub ops W' (fscale ops q' B')) (vsub W (smul q B))"
proof -
  note k = orth2_component[OF acc u q' q]
  obtain b1 b2 b3 b4 where B: "B = (b1, b2, b3, b4)" by (cases B)
  obtain b1' b2' b3' b4' where B': "B' = (b1', b2', b3', b4')" by (cases B')
  obtain o1 o2 o3 o4 where W: "W = (o1, o2, o3, o4)" by (cases W)
  obtain o1' o2' o3' o4' where W': "W' = (o1', o2', o3', o4')" by (cases W')
  from b' b w' wb show ?thesis unfolding B B' W W' by (simp add: k)
qed

lemma gram_pos_dot: "0 < gram b1 b2 \<Longrightarrow> dot b1 b1 \<noteq> 0"
  unfolding gram_def using zero_le_power2[of "dot b1 b2"] by auto

lemma float_residual:
  assumes acc: "fp_accurate u ops" and u: "0 \<le> u" "u \<le> 1 / 10 ^ 15"
    and s: "small b1" "small b2" "small p" and g: "0 < gram b1 b2"
  shows "0 < fdot ops (orth1 ops b1 b2) (orth1 ops b1 b2)"
    and "close (2000000 * u) (orth2 ops (orth1 ops b1 b2) (orth1 ops b1 p)) (residual b1 b2 p)"
proof -
  let ?B = "orth1 exact_ops b1 b2" and ?B' = "orth1 ops b1 b2"
  let ?W = "orth1 exact_ops b1 p" and ?W' = "orth1 ops b1 p"
  have n: "dot b1 b1 \<noteq> 0" using g by (rule gram_pos_dot)
  have g0: "gram b1 b2 \<noteq> 0" using g by simp
  have us: "u \<le> 1 / 100000000" using u by simp
  have e: "0 \<le> 30 * u" "30 * u \<le> 1 / 10" using u us by simp_all
  have cB: "close (30 * u) ?B' ?B" using acc u s(1,2) n by (rule orth1_close)
  have cW: "close (30 * u) ?W' ?W" using acc u s(1,3) n by (rule orth1_close)
  have bB: "bounded 4 ?B" using s(1,2) n by (rule orth1_exact_bounded)
  have bW: "bounded 4 ?W" using s(1,3) n by (rule orth1_exact_bounded)
  have "\<bar>fdot ops ?B' ?B' - dot ?B ?B\<bar> \<le> 340 * u + 36 * (30 * u)"
    using acc u(1) cB cB bB bB e by (rule dot_close)
  then have dn: "\<bar>fdot ops ?B' ?B' - dot ?B ?B\<bar> \<le> 1420 * u" by simp
  have "\<bar>fdot ops ?B' ?W' - dot ?B ?W\<bar> \<le> 340 * u + 36 * (30 * u)"
    using acc u(1) cB cW bB bW e by (rule dot_close)
  then have de: "\<bar>fdot ops ?B' ?W' - dot ?B ?W\<bar> \<le> 1420 * u" by simp
  have nl: "1 / 16 \<le> dot ?B ?B" using s(1) g n by (rule norm2_lower)
  have "dot ?W ?W \<le> 4\<^sup>2"
  proof -
    have n1: "1 \<le> dot b1 b1" using dot_self_nonneg[of b1] n by linarith
    have "gram b1 p \<le> dot b1 b1 * 16"
      using gram_le_mult[of b1 p] small_dot_le[OF s(3)] n1
      by (meson mult_left_mono order_trans zero_le_one)
    then have "(of_int (gram b1 p) :: real) \<le> of_int (dot b1 b1) * 16"
      by (metis of_int_le_iff of_int_mult of_int_numeral)
    then show ?thesis using n1 by (simp add: norm_orth1[OF n] field_simps)
  qed
  then have wl: "dot ?W ?W \<le> 16" by simp
  have q: "\<bar>dot ?B ?W / dot ?B ?B\<bar> \<le> 16" using nl wl by (rule quot_bound)
  have E: "1420 * u \<le> 1 / 1000" using us by simp
  note qc = quot_close[OF acc u nl dn de q E]
  from qc(1) show "0 < fdot ops ?B' ?B'" by linarith
  from qc(2) u have q': "\<bar>fdiv ops (fdot ops ?B' ?W') (fdot ops ?B' ?B') - dot ?B ?W / dot ?B ?B\<bar>
      \<le> 420000 * u" by linarith
  have "close (2000000 * u)
     (fvsub ops ?W' (fscale ops (fdiv ops (fdot ops ?B' ?W') (fdot ops ?B' ?B')) ?B'))
     (vsub ?W (smul (dot ?B ?W / dot ?B ?B) ?B))"
    using acc u q' q cB bB cW bW by (rule orth2_vec)
  then show "close (2000000 * u) (orth2 ops ?B' ?W') (residual b1 b2 p)"
    unfolding exact_residual[OF n g0, symmetric] orth2_exact by (simp add: orth2_def)
qed

lemma close_zero: "close e v (0, 0, 0, 0) \<longleftrightarrow> bounded e v"
  by (cases v) simp

lemma close_bounded1:
  fixes a b :: real
  shows "\<bar>a - b\<bar> \<le> e \<Longrightarrow> \<bar>a\<bar> \<le> t \<Longrightarrow> \<bar>b\<bar> \<le> t + e"
  by linarith

lemma close_bounded:
  "close e v w \<Longrightarrow> bounded t v \<Longrightarrow> bounded (t + e) w"
  by (cases v; cases w) (auto intro: close_bounded1)

lemma allclose0_bounded: "allclose0 ops v \<longleftrightarrow> bounded (atol ops) v"
  by (cases v) simp

lemma bounded_mono: "bounded e v \<Longrightarrow> e \<le> e' \<Longrightarrow> bounded e' v"
  by (cases v) auto

lemma residual_test:
  assumes acc: "fp_accurate u ops" and u: "0 \<le> u" "u \<le> 1 / 10 ^ 15"
    and s: "small b1" "small b2" "small p" and g: "0 < gram b1 b2"
  shows "allclose0 ops (orth2 ops (orth1 ops b1 b2) (orth1 ops b1 p)) \<longleftrightarrow> in_span b1 b2 p"
proof -
  let ?r' = "orth2 ops (orth1 ops b1 b2) (orth1 ops b1 p)"
  note c = float_residual(2)[OF acc u s g]
  have us: "u \<le> 1 / 1000000000000000" using u by simp
  have a: "\<bar>atol ops - 1 / 100000000\<bar> \<le> u / 100000000"
    using fp_atol[OF acc] by simp
  have t: "9 / 1000000000 \<le> atol ops" "atol ops \<le> 2 / 100000000"
    using a us u(1) by linarith+
  show ?thesis
  proof
    assume "allclose0 ops ?r'"
    then have "bounded (atol ops) ?r'" by (simp add: allclose0_bounded)
    with c have "bounded (atol ops + 2000000 * u) (residual b1 b2 p)" by (rule close_bounded)
    moreover have "atol ops + 2000000 * u < 1 / 256" using t us by simp
    ultimately have "residual b1 b2 p = (0, 0, 0, 0)"
      using g s(1,2) by (intro residual_gap)
    then show "in_span b1 b2 p" using g by (simp add: residual_zero_iff)
  next
    assume "in_span b1 b2 p"
    then have "residual b1 b2 p = (0, 0, 0, 0)" using g by (simp add: residual_zero_iff)
    with c have "bounded (2000000 * u) ?r'" by (simp add: close_zero)
    moreover have "2000000 * u \<le> atol ops" using t us by simp
    ultimately show "allclose0 ops ?r'" unfolding allclose0_bounded by (rule bounded_mono)
  qed
qed

lemma residuals_vanish_iff:
  assumes acc: "fp_accurate u ops" and u: "0 \<le> u" "u \<le> 1 / 10 ^ 15"
    and s: "small b1" "small b2" "\<forall>p\<in>set pts. small p" and g: "0 < gram b1 b2"
  shows "residuals_vanish ops b1 b2 pts \<longleftrightarrow> (\<forall>p\<in>set pts. in_span b1 b2 p)"
proof -
  have n: "dot b1 b1 \<noteq> 0" using g by (rule gram_pos_dot)
  have z: "fdot ops (orth1 ops b1 b2) (orth1 ops b1 b2) \<noteq> 0"
    using float_residual(1)[OF acc u s(1,2,2) g] by simp
  have "list_all (\<lambda>p. allclose0 ops (orth2 ops (orth1 ops b1 b2) (orth1 ops b1 p))) pts \<longleftrightarrow>
        (\<forall>p\<in>set pts. in_span b1 b2 p)"
    unfolding list_all_iff using residual_test[OF acc u s(1,2) _ g] s(3) by blast
  then show ?thesis
    unfolding residuals_vanish_def Let_def using n z by (simp only: if_False)
qed

lemma exact_accurate: "fp_accurate 0 exact_ops"
  unfolding fp_accurate_def exact_ops_def by simp

section \<open>Lattice points in order\<close>

lemma lattice_pt: "0 \<le> i \<Longrightarrow> i \<le> 80 \<Longrightarrow> lattice (pt_of i)"
  unfolding lattice_def using nth_mem[of "nat i" all_points]
  by (simp add: length_all_points nth_all_points)

lemma lex_less_lexpos: "lex_less p q \<longleftrightarrow> lexpos (vsub q p)"
  by (cases p; cases q) (auto simp: lexpos_def)

lemma lattice_bounds:
  "lattice (a, b, c, d) \<Longrightarrow> \<bar>a\<bar> \<le> 1 \<and> \<bar>b\<bar> \<le> 1 \<and> \<bar>c\<bar> \<le> 1 \<and> \<bar>d\<bar> \<le> 1"
  unfolding lattice_def set_all_points by auto

lemma diff_small: "\<bar>a\<bar> \<le> 1 \<Longrightarrow> \<bar>e\<bar> \<le> 1 \<Longrightarrow> \<bar>e - a\<bar> \<le> (2::int)"
  by linarith

lemma lattice_small: "lattice p \<Longrightarrow> lattice q \<Longrightarrow> small (vsub q p)"
  by (cases p; cases q) (auto dest!: lattice_bounds intro: diff_small)

lemma lex_less_asym: "lex_less p q \<Longrightarrow> \<not> lex_less q p"
  by (cases p; cases q) auto

lemma lex_less_trans: "lex_less p q \<Longrightarrow> lex_less q r \<Longrightarrow> lex_less p r"
  by (cases p; cases q; cases r) auto



lemma vsub_cancel: "vsub C A = vsub B A \<Longrightarrow> C = (B :: point)"
  by (cases A; cases B; cases C) simp

lemma vsub_half: "vsub B A = smul 2 (vsub C A) \<Longrightarrow> vsub B C = vsub C (A :: point)"
  by (cases A; cases B; cases C) simp

text \<open>three lattice points in lexicographic order: the two differences from the first
  are independent unless the third is the first plus twice the first difference\<close>
lemma independent:
  assumes l: "lattice A" "lattice B" "lattice C"
    and o: "lex_less A B" "lex_less B C"
    and n: "vsub C A \<noteq> smul 2 (vsub B A)"
  shows "0 < gram (vsub B A) (vsub C A)"
proof (rule ccontr)
  assume "\<not> 0 < gram (vsub B A) (vsub C A)"
  with gram_nonneg[of "vsub B A" "vsub C A"] have z: "gram (vsub B A) (vsub C A) = 0" by linarith
  have ac: "lex_less A C" using o by (rule lex_less_trans)
  have pb: "lexpos (vsub B A)" using o(1) by (simp only: lex_less_lexpos)
  have pc: "lexpos (vsub C A)" using ac by (simp only: lex_less_lexpos)
  have "vsub C A = vsub B A \<or> vsub C A = smul 2 (vsub B A) \<or> vsub B A = smul 2 (vsub C A)"
    using lattice_small[OF l(1,2)] lattice_small[OF l(1,3)] pb pc z by (rule parallel_cases)
  then consider "vsub C A = vsub B A" | "vsub B A = smul 2 (vsub C A)" using n by blast
  then show False
  proof cases
    case 1
    then have "C = B" by (rule vsub_cancel)
    with o(2) show False by (simp add: lex_less_irrefl)
  next
    case 2
    then have "vsub B C = vsub C A" by (rule vsub_half)
    with pc have "lex_less C B" by (simp only: lex_less_lexpos)
    with o(2) show False by (simp add: lex_less_asym)
  qed
qed

section \<open>Planes and spans\<close>

lemma dot_comb:
  fixes v w :: "real vec4"
  shows "dot (vadd (smul a v) (smul b w)) (vadd (smul c v) (smul d w)) =
         a * c * dot v v + (a * d + b * c) * dot v w + b * d * dot w w"
  by (cases v; cases w) (simp add: algebra_simps)

lemma gram_comb:
  fixes A B C a b c d :: real
  shows "(a * a * A + (a * b + b * a) * B + b * b * C) * (c * c * A + (c * d + d * c) * B + d * d * C)
         - (a * c * A + (a * d + b * c) * B + b * d * C)\<^sup>2
         = (a * d - c * b)\<^sup>2 * (A * C - B\<^sup>2)"
  by (simp add: power2_eq_square algebra_simps)

lemma comb_comb:
  fixes v w :: "real vec4"
  shows "vadd (smul X (vadd (smul a v) (smul b w))) (smul Y (vadd (smul c v) (smul d w))) =
         vadd (smul (X * a + Y * c) v) (smul (X * b + Y * d) w)"
  by (cases v; cases w) (simp add: algebra_simps)

lemma span_change:
  assumes b1: "to_float b1 = vadd (smul a v) (smul b w)"
    and b2: "to_float b2 = vadd (smul c v) (smul d w)"
    and g: "gram b1 b2 \<noteq> 0"
    and p: "to_float p = vadd (smul x v) (smul y w)"
  shows "in_span b1 b2 p"
proof -
  let ?D = "a * d - c * b"
  have "of_int (gram b1 b2) = dot (to_float b1) (to_float b1) * dot (to_float b2) (to_float b2)
        - (dot (to_float b1) (to_float b2))\<^sup>2"
    by (simp add: gram_def dot_to_float)
  also have "\<dots> = ?D\<^sup>2 * (dot v v * dot w w - (dot v w)\<^sup>2)"
    unfolding b1 b2 dot_comb by (rule gram_comb)
  finally have "?D \<noteq> 0" using g by auto
  then have D: "a * d - c * b \<noteq> 0" .
  let ?X = "(x * d - y * c) / ?D" and ?Y = "(y * a - x * b) / ?D"
  have 1: "?X * a + ?Y * c = x"
  proof -
    have "?X * a + ?Y * c = (x * (a * d - c * b)) / ?D"
      by (simp add: algebra_simps add_divide_distrib[symmetric] diff_divide_distrib[symmetric])
    then show ?thesis using D by simp
  qed
  have 2: "?X * b + ?Y * d = y"
  proof -
    have "?X * b + ?Y * d = (y * (a * d - c * b)) / ?D"
      by (simp add: algebra_simps add_divide_distrib[symmetric] diff_divide_distrib[symmetric])
    then show ?thesis using D by simp
  qed
  have "to_float p = vadd (smul ?X (to_float b1)) (smul ?Y (to_float b2))"
    unfolding b1 b2 comb_comb 1 2 by (rule p)
  then show ?thesis unfolding in_span_def by blast
qed

lemma to_float_inj: "to_float p = to_float q \<Longrightarrow> p = q"
  by (cases p; cases q) simp

lemma plane_diff:
  fixes o' v w :: "real vec4"
  assumes "to_float p = vadd o' (vadd (smul a v) (smul b w))"
    and "to_float q = vadd o' (vadd (smul c v) (smul d w))"
  shows "to_float (vsub p q) = vadd (smul (a - c) v) (smul (b - d) w)"
proof -
  have "to_float (vsub p q) = vsub (to_float p) (to_float q)" by (simp add: to_float_vsub)
  also have "\<dots> = vadd (smul (a - c) v) (smul (b - d) w)"
    unfolding assms by (cases o'; cases v; cases w) (simp add: algebra_simps)
  finally show ?thesis .
qed

lemma plane_point:
  assumes "to_float (vsub p q) = vadd (smul x (to_float b1)) (smul y (to_float b2))"
  shows "to_float p = vadd (to_float q) (vadd (smul x (to_float b1)) (smul y (to_float b2)))"
proof -
  have "to_float p = vadd (to_float q) (to_float (vsub p q))"
    by (cases p; cases q) simp
  then show ?thesis by (simp only: assms)
qed

lemma plane_origin:
  fixes P v w :: "real vec4"
  shows "P = vadd P (vadd (smul 0 v) (smul 0 w))"
  by (cases P; cases v; cases w) simp

section \<open>The exact check on sorted candidates\<close>

lemma iss_short:
  assumes "in_range c" "length c \<le> 2"
  shows "is_solution_subseq ops c = Inr True"
proof -
  have pa: "points_at c = Inr (map pt_of c)" using assms(1) by (rule points_at_in_range)
  show ?thesis
    unfolding is_solution_subseq_def pa using assms(2)
    by (auto simp: relative_vectors_def Let_def)
qed

lemma coplanarI:
  "(\<And>p. p \<in> set pts \<Longrightarrow> \<exists>a b. to_float p = vadd o' (vadd (smul a v) (smul b w))) \<Longrightarrow>
   coplanar pts"
  unfolding coplanar_def by blast

lemma iss_long:
  assumes "in_range (i0 # i1 # r)" "r \<noteq> []"
  shows "is_solution_subseq ops (i0 # i1 # r) =
     (case second_basis (vsub (pt_of i1) (pt_of i0)) (map (\<lambda>k. vsub (pt_of k) (pt_of i0)) r) of
        None \<Rightarrow> Inr True
      | Some b2 \<Rightarrow> Inr (residuals_vanish ops (vsub (pt_of i1) (pt_of i0)) b2
                        (vsub (pt_of i1) (pt_of i0) # map (\<lambda>k. vsub (pt_of k) (pt_of i0)) r)))"
proof -
  have pa: "points_at (i0 # i1 # r) = Inr (map pt_of (i0 # i1 # r))"
    using assms(1) by (rule points_at_in_range)
  have "2 \<le> length r + 1" using assms(2) by (cases r) simp_all
  then show ?thesis
    unfolding is_solution_subseq_def pa using assms(2)
    by (simp add: relative_vectors_def Let_def o_def)
qed

lemma sorted_facts:
  assumes "in_range (i0 # i1 # r)" "sorted_wrt (<) (i0 # i1 # r)"
  shows "0 \<le> i0" "i0 < i1" "i1 \<le> 80" "\<forall>k\<in>set r. i1 < k \<and> k \<le> 80"
  using assms by (auto simp: in_range_def)

lemma coplanar_short:
  assumes "length pts \<le> 2"
  shows "coplanar pts"
proof -
  consider "pts = []" | p where "pts = [p]" | p q where "pts = [p, q]"
    using assms by (cases pts; cases "tl pts"; cases "tl (tl pts)") auto
  then show ?thesis
  proof cases
    case 1
    then show ?thesis by (simp add: coplanar_def)
  next
    case 2
    show ?thesis
    proof (rule coplanarI)
      fix x assume "x \<in> set pts"
      then have "x = p" using 2 by simp
      then show "\<exists>a b. to_float x = vadd (to_float p) (vadd (smul a (to_float p)) (smul b (to_float p)))"
        using plane_origin[of "to_float p" "to_float p" "to_float p"] by blast
    qed
  next
    case 3
    have q: "to_float q = vadd (to_float p) (vadd (smul 1 (to_float (vsub q p))) (smul 0 (to_float p)))"
      by (cases p; cases q) simp
    show ?thesis
    proof (rule coplanarI)
      fix x assume "x \<in> set pts"
      then consider "x = p" | "x = q" using 3 by auto
      then show "\<exists>a b. to_float x = vadd (to_float p)
                   (vadd (smul a (to_float (vsub q p))) (smul b (to_float p)))"
      proof cases
        case 1
        then show ?thesis
          using plane_origin[of "to_float p" "to_float (vsub q p)" "to_float p"] by blast
      next
        case 2
        then show ?thesis using q by blast
      qed
    qed
  qed
qed

lemma on_line:
  assumes "vsub P Q = smul a B"
  shows "to_float P = vadd (to_float Q) (vadd (smul (of_int a) (to_float B)) (smul 0 W))"
proof -
  have "to_float P = vadd (to_float Q) (to_float (vsub P Q))" by (cases P; cases Q) simp
  also have "to_float (vsub P Q) = vadd (smul (of_int a) (to_float B)) (smul 0 W)"
    unfolding assms by (cases B; cases W) simp
  finally show ?thesis .
qed

lemma vneg_smul: "vneg b = smul (- 1) (b :: point)"
  by (cases b) simp

lemma coplanar_colinear:
  assumes "\<forall>k\<in>set r. vsub (pt_of k) (pt_of i0) = vneg b1 \<or> vsub (pt_of k) (pt_of i0) = smul (- 2) b1
              \<or> vsub (pt_of k) (pt_of i0) = smul 2 b1"
    and b1: "b1 = vsub (pt_of i1) (pt_of i0)"
  shows "coplanar (map pt_of (i0 # i1 # r))"
proof -
  let ?o = "to_float (pt_of i0)" and ?v = "to_float b1"
  have "\<exists>a b. to_float p = vadd ?o (vadd (smul a ?v) (smul b ?v))"
    if "p \<in> set (map pt_of (i0 # i1 # r))" for p
  proof -
    from that consider "p = pt_of i0" | "p = pt_of i1" | k where "k \<in> set r" "p = pt_of k" by auto
    then show ?thesis
    proof cases
      case 1
      then show ?thesis using plane_origin[of ?o ?v ?v] by blast
    next
      case 2
      have "vsub (pt_of i1) (pt_of i0) = smul 1 b1" unfolding b1 by (cases "vsub (pt_of i1) (pt_of i0)") simp
      from on_line[OF this] 2 show ?thesis by blast
    next
      case 3
      with assms(1) have "\<exists>a. vsub p (pt_of i0) = smul a b1" by (auto simp: vneg_smul)
      then obtain a where "vsub p (pt_of i0) = smul a b1" ..
      from on_line[OF this] show ?thesis by blast
    qed
  qed
  then show ?thesis by (rule coplanarI)
qed

lemma second_basis_None:
  "second_basis b1 rest = None \<Longrightarrow>
   \<forall>p\<in>set rest. p = vneg b1 \<or> p = smul (- 2) b1 \<or> p = smul 2 b1"
  unfolding second_basis_def find_None_iff by blast

lemma second_basis_Some:
  "second_basis b1 rest = Some b2 \<Longrightarrow> b2 \<in> set rest \<and> b2 \<noteq> smul 2 b1"
  unfolding second_basis_def find_Some_iff by (metis nth_mem)

lemma span_coplanar:
  assumes b1: "b1 = vsub (pt_of i1) (pt_of i0)"
    and k2: "k2 \<in> set r" "b2 = vsub (pt_of k2) (pt_of i0)"
    and g: "gram b1 b2 \<noteq> 0"
  shows "(\<forall>p\<in>set (b1 # map (\<lambda>k. vsub (pt_of k) (pt_of i0)) r). in_span b1 b2 p) \<longleftrightarrow>
         coplanar (map pt_of (i0 # i1 # r))"
proof
  assume a: "\<forall>p\<in>set (b1 # map (\<lambda>k. vsub (pt_of k) (pt_of i0)) r). in_span b1 b2 p"
  let ?o = "to_float (pt_of i0)"
  show "coplanar (map pt_of (i0 # i1 # r))"
  proof (rule coplanarI)
    fix p assume "p \<in> set (map pt_of (i0 # i1 # r))"
    then consider "p = pt_of i0" | k where "k \<in> set (i1 # r)" "p = pt_of k" by auto
    then show "\<exists>x y. to_float p = vadd ?o (vadd (smul x (to_float b1)) (smul y (to_float b2)))"
    proof cases
      case 1
      then show ?thesis using plane_origin[of ?o "to_float b1" "to_float b2"] by blast
    next
      case 2
      then have "vsub p (pt_of i0) \<in> set (b1 # map (\<lambda>k. vsub (pt_of k) (pt_of i0)) r)"
        using b1 by auto
      with a have "in_span b1 b2 (vsub p (pt_of i0))" by blast
      then obtain x y where
        "to_float (vsub p (pt_of i0)) = vadd (smul x (to_float b1)) (smul y (to_float b2))"
        unfolding in_span_def by blast
      from plane_point[OF this] show ?thesis by blast
    qed
  qed
next
  assume "coplanar (map pt_of (i0 # i1 # r))"
  then obtain o' v w where
    pl: "\<And>p. p \<in> set (map pt_of (i0 # i1 # r)) \<Longrightarrow>
           \<exists>a b. to_float p = vadd o' (vadd (smul a v) (smul b w))"
    unfolding coplanar_def by blast
  have rel: "\<exists>a b. to_float (vsub (pt_of k) (pt_of i0)) = vadd (smul a v) (smul b w)"
    if "k \<in> set (i1 # r)" for k
  proof -
    have "pt_of k \<in> set (map pt_of (i0 # i1 # r))" using that by auto
    from pl[OF this]
    obtain a b where 1: "to_float (pt_of k) = vadd o' (vadd (smul a v) (smul b w))" by blast
    have "pt_of i0 \<in> set (map pt_of (i0 # i1 # r))" by simp
    from pl[OF this]
    obtain c d where 2: "to_float (pt_of i0) = vadd o' (vadd (smul c v) (smul d w))" by blast
    from plane_diff[OF 1 2] show ?thesis by blast
  qed
  obtain a b where e1: "to_float b1 = vadd (smul a v) (smul b w)"
    using rel[of i1] b1 by auto
  obtain c d where e2: "to_float b2 = vadd (smul c v) (smul d w)"
    using rel[of k2] k2 by auto
  show "\<forall>p\<in>set (b1 # map (\<lambda>k. vsub (pt_of k) (pt_of i0)) r). in_span b1 b2 p"
  proof
    fix p assume "p \<in> set (b1 # map (\<lambda>k. vsub (pt_of k) (pt_of i0)) r)"
    then obtain k where "k \<in> set (i1 # r)" "p = vsub (pt_of k) (pt_of i0)"
      using b1 by auto
    with rel obtain x y where "to_float p = vadd (smul x v) (smul y w)" by blast
    with e1 e2 g show "in_span b1 b2 p" by (rule span_change)
  qed
qed

lemma exact_check_long:
  assumes acc: "fp_accurate u ops" and u: "0 \<le> u" "u \<le> 1 / 10 ^ 15"
    and ir: "in_range (i0 # i1 # r)" and so: "sorted_wrt (<) (i0 # i1 # r)" and ne: "r \<noteq> []"
  shows "is_solution_subseq ops (i0 # i1 # r) = Inr (coplanar (map pt_of (i0 # i1 # r)))"
proof -
  note sf = sorted_facts[OF ir so]
  let ?b1 = "vsub (pt_of i1) (pt_of i0)"
  let ?rel = "\<lambda>k. vsub (pt_of k) (pt_of i0)"
  have l0: "lattice (pt_of i0)" using sf by (intro lattice_pt) auto
  have l1: "lattice (pt_of i1)" using sf by (intro lattice_pt) auto
  have lk: "lattice (pt_of k)" if "k \<in> set r" for k using sf that by (intro lattice_pt) auto
  show ?thesis
  proof (cases "second_basis ?b1 (map ?rel r)")
    case None
    from second_basis_None[OF this]
    have "\<forall>k\<in>set r. ?rel k = vneg ?b1 \<or> ?rel k = smul (- 2) ?b1 \<or> ?rel k = smul 2 ?b1"
      by simp
    then have "coplanar (map pt_of (i0 # i1 # r))" by (rule coplanar_colinear) simp
    then show ?thesis unfolding iss_long[OF ir ne] None by simp
  next
    case (Some b2)
    from second_basis_Some[OF this] obtain k2 where
      k2: "k2 \<in> set r" "b2 = ?rel k2" and n2: "b2 \<noteq> smul 2 ?b1" by auto
    have o1: "lex_less (pt_of i0) (pt_of i1)" using sf by (intro lex_pt) auto
    have o2: "lex_less (pt_of i1) (pt_of k2)" using sf k2(1) by (intro lex_pt) auto
    have g: "0 < gram ?b1 b2"
      unfolding k2(2) using l0 l1 lk[OF k2(1)] o1 o2 n2[unfolded k2(2)] by (rule independent)
    have s1: "small ?b1" using l0 l1 by (rule lattice_small)
    have s2: "small b2" unfolding k2(2) using l0 lk[OF k2(1)] by (rule lattice_small)
    have s3: "\<forall>p\<in>set (?b1 # map ?rel r). small p"
      using s1 lattice_small[OF l0 lk] by auto
    have "residuals_vanish ops ?b1 b2 (?b1 # map ?rel r) \<longleftrightarrow>
          (\<forall>p\<in>set (?b1 # map ?rel r). in_span ?b1 b2 p)"
      using acc u s1 s2 s3 g by (rule residuals_vanish_iff)
    also have "\<dots> \<longleftrightarrow> coplanar (map pt_of (i0 # i1 # r))"
      using refl k2 by (rule span_coplanar) (use g in simp)
    finally show ?thesis unfolding iss_long[OF ir ne] Some by simp
  qed
qed

lemma exact_check_sorted:
  assumes acc: "fp_accurate u ops" and u: "0 \<le> u" "u \<le> 1 / 10 ^ 15"
    and ir: "in_range c" and so: "sorted_wrt (<) c"
  shows "is_solution_subseq ops c = Inr (coplanar (map pt_of c))"
proof (cases "length c \<le> 2")
  case True
  then show ?thesis using iss_short[OF ir True] coplanar_short[of "map pt_of c"] by simp
next
  case False
  then obtain i0 i1 r where c: "c = i0 # i1 # r" "r \<noteq> []"
    by (cases c; cases "tl c"; cases "tl (tl c)") auto
  show ?thesis using acc u ir so c(2) unfolding c(1) by (rule exact_check_long)
qed

lemma multiple_gram:
  assumes "to_float b2 = smul k (to_float b1)"
  shows "gram b1 b2 = 0"
proof -
  have "of_int (gram b1 b2) = dot (to_float b1) (to_float b1) * dot (to_float b2) (to_float b2)
        - (dot (to_float b1) (to_float b2))\<^sup>2"
    by (simp add: gram_def dot_to_float)
  also have "\<dots> = (0::real)"
    unfolding assms by (cases "to_float b1") (simp add: power2_eq_square algebra_simps)
  finally show ?thesis by simp
qed

lemma basis_independent:
  assumes ir: "in_range (i0 # i1 # r)" and so: "sorted_wrt (<) (i0 # i1 # r)"
    and sb: "second_basis (vsub (pt_of i1) (pt_of i0)) (map (\<lambda>k. vsub (pt_of k) (pt_of i0)) r) = Some b2"
  shows "small (vsub (pt_of i1) (pt_of i0))" "small b2" "0 < gram (vsub (pt_of i1) (pt_of i0)) b2"
proof -
  note sf = sorted_facts[OF ir so]
  let ?b1 = "vsub (pt_of i1) (pt_of i0)"
  let ?rel = "\<lambda>k. vsub (pt_of k) (pt_of i0)"
  have l0: "lattice (pt_of i0)" using sf by (intro lattice_pt) auto
  have l1: "lattice (pt_of i1)" using sf by (intro lattice_pt) auto
  have lk: "lattice (pt_of k)" if "k \<in> set r" for k using sf that by (intro lattice_pt) auto
  from second_basis_Some[OF sb] obtain k2 where
    k2: "k2 \<in> set r" "b2 = ?rel k2" and n2: "b2 \<noteq> smul 2 ?b1" by auto
  have o1: "lex_less (pt_of i0) (pt_of i1)" using sf by (intro lex_pt) auto
  have o2: "lex_less (pt_of i1) (pt_of k2)" using sf k2(1) by (intro lex_pt) auto
  show "0 < gram ?b1 b2"
    unfolding k2(2) using l0 l1 lk[OF k2(1)] o1 o2 n2[unfolded k2(2)] by (rule independent)
  show "small ?b1" using l0 l1 by (rule lattice_small)
  show "small b2" unfolding k2(2) using l0 lk[OF k2(1)] by (rule lattice_small)
qed

lemma exact_perturbed_nine:
  "is_solution_subseq exact_ops [0, 1, 2, 3, 4, 5, 6, 7, 9] = Inr False"
proof -
  have pa: "points_at [0, 1, 2, 3, 4, 5, 6, 7, 9] = Inr (map pt_of [0, 1, 2, 3, 4, 5, 6, 7, 9])"
    by (rule points_at_in_range) (simp add: in_range_def)
  show ?thesis
    unfolding is_solution_subseq_def pa
    by (simp add: pt_of_def relative_vectors_def second_basis_def residuals_vanish_def
         orth1_def orth2_def exact_ops_def)
qed

text \<open>
  C4. No division by zero on a candidate of strictly increasing indices in range: whenever
  the divisions of lines 69 to 72 are reached, that is, a second basis vector has been
  selected, \<open>basis1 . basis1\<close> is positive, the orthogonalised \<open>basis2\<close> has a positive
  computed \<open>basis2 . basis2\<close>, and the selected vector is no scalar multiple of \<open>basis1\<close>.
  The float arithmetic is any arithmetic that is accurate to a unit roundoff of at most
  \<open>10^-15\<close>.
\<close>

theorem no_division_by_zero:
  assumes acc: "fp_accurate u ops" and u: "0 \<le> u" "u \<le> 1 / 10 ^ 15"
    and ir: "in_range c" and so: "sorted_wrt (<) c"
    and lk: "points_at c = Inr looked_up"
    and b1: "basis1 = hd (relative_vectors looked_up)"
    and sb: "second_basis basis1 (tl (relative_vectors looked_up)) = Some b2"
  shows "0 < dot basis1 basis1 \<and>
         0 < fdot ops (orth1 ops basis1 b2) (orth1 ops basis1 b2) \<and>
         (\<forall>k. to_float b2 \<noteq> smul k (to_float basis1))"
proof -
  have lu: "looked_up = map pt_of c" using points_at_in_range[OF ir] lk by simp
  have "tl (relative_vectors looked_up) \<noteq> []"
    using sb by (auto simp: second_basis_def)
  then obtain i0 i1 r where c: "c = i0 # i1 # r"
    unfolding lu relative_vectors_def by (cases c; cases "tl c") auto
  let ?b1 = "vsub (pt_of i1) (pt_of i0)"
  have e1: "basis1 = ?b1" unfolding b1 lu c by (simp add: relative_vectors_def)
  have e2: "tl (relative_vectors looked_up) = map (\<lambda>k. vsub (pt_of k) (pt_of i0)) r"
    unfolding lu c by (simp add: relative_vectors_def)
  note bi = basis_independent[OF ir[unfolded c] so[unfolded c] sb[unfolded e1 e2]]
  have g: "0 < gram basis1 b2" unfolding e1 by (rule bi(3))
  have s: "small basis1" "small b2" unfolding e1 by (rule bi(1), rule bi(2))
  have "dot basis1 basis1 \<noteq> 0" using g by (rule gram_pos_dot)
  then have 1: "0 < dot basis1 basis1" using dot_self_nonneg[of basis1] by linarith
  have 2: "0 < fdot ops (orth1 ops basis1 b2) (orth1 ops basis1 b2)"
    using acc u s(1) s(2) s(2) g by (rule float_residual(1))
  have 3: "\<forall>k. to_float b2 \<noteq> smul k (to_float basis1)"
    using multiple_gram[of b2 _ basis1] g by fastforce
  from 1 2 3 show ?thesis by blast
qed

theorem no_division_by_zero_witness:
  "0 < dot (0, 0, 0, 1) ((0, 0, 0, 1) :: point) \<and>
   0 < fdot exact_ops (orth1 exact_ops (0, 0, 0, 1) (0, 0, 1, 0))
         (orth1 exact_ops (0, 0, 0, 1) (0, 0, 1, 0)) \<and>
   (\<forall>k. to_float (0, 0, 1, 0) \<noteq> smul k (to_float (0, 0, 0, 1)))"
proof -
  let ?c = "[0, 1, 2, 3, 4, 5, 6, 7, 8] :: int list"
  have ir: "in_range ?c" by (simp add: in_range_def)
  have so: "sorted_wrt (<) ?c" by simp
  have b1: "(0, 0, 0, 1) = hd (relative_vectors (map pt_of ?c))"
    by (simp add: relative_vectors_def pt_of_def)
  have sb: "second_basis (0, 0, 0, 1) (tl (relative_vectors (map pt_of ?c))) = Some (0, 0, 1, 0)"
    by (simp add: relative_vectors_def pt_of_def second_basis_def)
  have u: "(0::real) \<le> 0" "(0::real) \<le> 1 / 10 ^ 15" by simp_all
  show ?thesis
    using exact_accurate u ir so points_first_nine b1 sb by (rule no_division_by_zero)
qed

text \<open>
  C2. On every candidate of strictly increasing indices in range, of any length,
  \<open>is_solution_subseq\<close> returns true if and only if the points of the candidate are
  affinely coplanar. The float arithmetic is any arithmetic that is accurate to a unit
  roundoff of at most \<open>10^-15\<close>.
\<close>

theorem exact_check_is_coplanarity:
  assumes "fp_accurate u ops" and "0 \<le> u" and "u \<le> 1 / 10 ^ 15"
    and "in_range c" and "sorted_wrt (<) c"
  shows "points_at c = Inr (map pt_of c) \<and>
         is_solution_subseq ops c = Inr (coplanar (map pt_of c))"
  using assms exact_check_sorted points_at_in_range by blast

theorem exact_check_is_coplanarity_witness:
  "coplanar (map pt_of [0, 1, 2, 3, 4, 5, 6, 7, 8]) \<and>
   \<not> coplanar (map pt_of [0, 1, 2, 3, 4, 5, 6, 7, 9])"
  using exact_check_is_coplanarity[of 0 exact_ops "[0, 1, 2, 3, 4, 5, 6, 7, 8]", OF exact_accurate]
    exact_check_is_coplanarity[of 0 exact_ops "[0, 1, 2, 3, 4, 5, 6, 7, 9]", OF exact_accurate]
    exact_first_nine exact_perturbed_nine
  by (simp add: in_range_def)

section \<open>Coordinates and spans\<close>

lemma vec_eqI:
  assumes "\<And>i. coord i p = coord i q"
  shows "p = q"
  using assms[of X1] assms[of X2] assms[of X3] assms[of X4] by (cases p; cases q) simp

lemma coord_vsub: "coord i (vsub p q) = coord i p - coord i (q :: 'a :: minus vec4)"
  by (cases i; cases p; cases q) simp_all

lemma coord_vadd: "coord i (vadd p q) = coord i p + coord i (q :: 'a :: plus vec4)"
  by (cases i; cases p; cases q) simp_all

lemma coord_smul: "coord i (smul k p) = k * coord i (p :: 'a :: times vec4)"
  by (cases i; cases p) simp_all

lemma coord_to_float: "coord i (to_float p) = of_int (coord i p)"
  by (cases i; cases p) simp_all

lemma coord_zero: "coord i (0, 0, 0, 0) = 0"
  by (cases i) simp_all

lemma minor_exists:
  assumes "gram b1 b2 \<noteq> 0"
  shows "\<exists>i j. coord i b1 * coord j b2 - coord j b1 * coord i b2 \<noteq> 0"
proof (rule ccontr)
  assume "\<not> ?thesis"
  then have z: "coord i b1 * coord j b2 - coord j b1 * coord i b2 = 0" for i j by blast
  obtain a1 a2 a3 a4 where b1: "b1 = (a1, a2, a3, a4)" by (cases b1)
  obtain c1 c2 c3 c4 where b2: "b2 = (c1, c2, c3, c4)" by (cases b2)
  have "gram b1 b2 = 0"
    using z[of X1 X2] z[of X1 X3] z[of X1 X4] z[of X2 X3] z[of X2 X4] z[of X3 X4]
    unfolding b1 b2 lagrange by simp
  with assms show False by simp
qed

lemma in_span_coord:
  assumes "in_span b1 b2 d"
  shows "\<exists>x y :: real. \<forall>k. of_int (coord k d) = x * of_int (coord k b1) + y * of_int (coord k b2)"
proof -
  from assms obtain x y where
    e: "to_float d = vadd (smul x (to_float b1)) (smul y (to_float b2))"
    unfolding in_span_def by blast
  have "of_int (coord k d) = x * of_int (coord k b1) + y * of_int (coord k b2)" for k
    using arg_cong[OF e, of "coord k"] by (simp add: coord_to_float coord_vadd coord_smul)
  then show ?thesis by blast
qed

lemma span_zero:
  assumes s: "in_span b1 b2 d"
    and m: "coord i b1 * coord j b2 - coord j b1 * coord i b2 \<noteq> 0"
    and z: "coord i d = 0" "coord j d = 0"
  shows "d = (0, 0, 0, 0)"
proof -
  from in_span_coord[OF s] obtain x y :: real where
    e: "\<And>k. of_int (coord k d) = x * of_int (coord k b1) + y * of_int (coord k b2)"
    by blast
  let ?M = "of_int (coord i b1) * of_int (coord j b2) - of_int (coord j b1) * of_int (coord i b2) :: real"
  have M: "?M \<noteq> 0"
  proof -
    have "?M = of_int (coord i b1 * coord j b2 - coord j b1 * coord i b2)" by simp
    with m show ?thesis by (simp only: of_int_eq_0_iff) simp
  qed
  have ei: "x * of_int (coord i b1) + y * of_int (coord i b2) = 0" using e[of i] z by simp
  have ej: "x * of_int (coord j b1) + y * of_int (coord j b2) = 0" using e[of j] z by simp
  have "x * ?M = (x * of_int (coord i b1) + y * of_int (coord i b2)) * of_int (coord j b2)
                 - (x * of_int (coord j b1) + y * of_int (coord j b2)) * of_int (coord i b2)"
    by (simp add: algebra_simps)
  then have "x * ?M = 0" unfolding ei ej by simp
  with M have x: "x = 0" by simp
  have "y * ?M = (x * of_int (coord j b1) + y * of_int (coord j b2)) * of_int (coord i b1)
                 - (x * of_int (coord i b1) + y * of_int (coord i b2)) * of_int (coord j b1)"
    by (simp add: algebra_simps)
  then have "y * ?M = 0" unfolding ei ej by simp
  with M have y: "y = 0" by simp
  have "coord k d = coord k (0, 0, 0, 0)" for k
    using e[of k] x y by (simp add: coord_zero)
  then show ?thesis by (rule vec_eqI)
qed

lemma in_span_vsub:
  assumes "in_span b1 b2 p" "in_span b1 b2 q"
  shows "in_span b1 b2 (vsub p q)"
proof -
  from assms obtain x y x' y' where
    e: "to_float p = vadd (smul x (to_float b1)) (smul y (to_float b2))"
       "to_float q = vadd (smul x' (to_float b1)) (smul y' (to_float b2))"
    unfolding in_span_def by blast
  have "to_float (vsub p q) = vsub (to_float p) (to_float q)" by (simp add: to_float_vsub)
  also have "\<dots> = vadd (smul (x - x') (to_float b1)) (smul (y - y') (to_float b2))"
    unfolding e by (cases "to_float b1"; cases "to_float b2") (simp add: algebra_simps)
  finally show ?thesis unfolding in_span_def by blast
qed

lemma in_span_smul:
  assumes "in_span b1 b2 p"
  shows "in_span b1 b2 (smul k p)"
proof -
  from assms obtain x y where
    e: "to_float p = vadd (smul x (to_float b1)) (smul y (to_float b2))"
    unfolding in_span_def by blast
  have "to_float (smul k p) = smul (of_int k) (to_float p)" by (simp add: to_float_smul)
  also have "\<dots> = vadd (smul (of_int k * x) (to_float b1)) (smul (of_int k * y) (to_float b2))"
    unfolding e by (cases "to_float b1"; cases "to_float b2") (simp add: algebra_simps)
  finally show ?thesis unfolding in_span_def by blast
qed

lemma lattice_coord: "lattice p \<Longrightarrow> \<bar>coord k p\<bar> \<le> 1"
  using lattice_bounds by (cases k; cases p) auto

section \<open>A plane with nine lattice points is a grid\<close>

lemma set_grid:
  "set (grid c g1 g2) =
     {vadd c (vadd (smul u g1) (smul w g2)) | u w. u \<in> {- 1, 0, 1} \<and> w \<in> {- 1, 0, 1}}"
  unfolding grid_def by auto

lemma unit_cases: "\<bar>x\<bar> \<le> 1 \<Longrightarrow> x \<in> {- 1, 0, 1 :: int}"
  by auto

lemma vsub_zero_int: "vsub p q = (0, 0, 0, 0) \<Longrightarrow> p = (q :: point)"
  by (cases p; cases q) simp

lemma lattice_unit: "lattice p \<Longrightarrow> coord k p \<in> {- 1, 0, 1}"
  by (intro unit_cases lattice_coord)

lemma corner_bound:
  fixes c a b :: int
  assumes "\<bar>c + a + b\<bar> \<le> 1" "\<bar>c + a - b\<bar> \<le> 1" "\<bar>c - a + b\<bar> \<le> 1" "\<bar>c - a - b\<bar> \<le> 1"
  shows "\<bar>a\<bar> + \<bar>b\<bar> \<le> 1"
  using assms by linarith

lemma plane_grid:
  assumes fin: "finite S" and card: "card S = 9" and lat: "\<forall>p\<in>S. lattice p"
    and sp: "\<And>p q. p \<in> S \<Longrightarrow> q \<in> S \<Longrightarrow> in_span b1 b2 (vsub p q)"
    and g: "gram b1 b2 \<noteq> 0"
  shows "\<exists>c e1 e2. S = set (grid c e1 e2) \<and> (\<forall>k. \<bar>coord k e1\<bar> + \<bar>coord k e2\<bar> \<le> 1) \<and>
           e1 \<noteq> (0, 0, 0, 0) \<and> e2 \<noteq> (0, 0, 0, 0)"
proof -
  from minor_exists[OF g] obtain i j where
    m: "coord i b1 * coord j b2 - coord j b1 * coord i b2 \<noteq> 0" by blast
  define pr where "pr p = (coord i p, coord j p)" for p :: point
  let ?U = "{- 1, 0, 1} :: int set"
  let ?G = "?U \<times> ?U"
  have zero: "d = (0, 0, 0, 0)" if "in_span b1 b2 d" "coord i d = 0" "coord j d = 0" for d
    using that(1) m that(2,3) by (rule span_zero)
  have inj: "inj_on pr S"
  proof (rule inj_onI)
    fix p q assume h: "p \<in> S" "q \<in> S" "pr p = pr q"
    have "vsub p q = (0, 0, 0, 0)"
      using sp[OF h(1,2)] h(3) by (intro zero) (simp_all add: pr_def coord_vsub)
    then show "p = q" by (rule vsub_zero_int)
  qed
  have sub: "pr ` S \<subseteq> ?G"
  proof
    fix z assume "z \<in> pr ` S"
    then obtain p where p: "p \<in> S" "z = pr p" by blast
    from p(1) lat have "lattice p" by blast
    then have "coord i p \<in> ?U" "coord j p \<in> ?U" by (simp_all only: lattice_unit)
    then show "z \<in> ?G" unfolding p(2) pr_def by blast
  qed
  have cG: "card ?G = 9" by (simp add: card_cartesian_product)
  have "card (pr ` S) = 9" using card_image[OF inj] card by simp
  then have img: "pr ` S = ?G" using sub cG by (intro card_subset_eq) simp_all
  define Q where "Q x y = inv_into S pr (x, y)" for x y
  have Q: "Q x y \<in> S \<and> coord i (Q x y) = x \<and> coord j (Q x y) = y" if "x \<in> ?U" "y \<in> ?U" for x y
  proof -
    have in_img: "(x, y) \<in> pr ` S" unfolding img using that by blast
    have "Q x y \<in> S" unfolding Q_def using in_img by (rule inv_into_into)
    moreover have "pr (Q x y) = (x, y)" unfolding Q_def using in_img by (rule f_inv_into_f)
    ultimately show ?thesis by (simp add: pr_def)
  qed
  define c where "c = Q 0 0"
  define e1 where "e1 = vsub (Q 1 0) c"
  define e2 where "e2 = vsub (Q 0 1) c"
  have cS: "c \<in> S" and ci: "coord i c = 0" and cj: "coord j c = 0"
    unfolding c_def using Q[of 0 0] by simp_all
  have e1i: "coord i e1 = 1" and e1j: "coord j e1 = 0"
    unfolding e1_def coord_vsub ci cj using Q[of 1 0] by simp_all
  have e2i: "coord i e2 = 0" and e2j: "coord j e2 = 1"
    unfolding e2_def coord_vsub ci cj using Q[of 0 1] by simp_all
  have s1: "in_span b1 b2 e1" unfolding e1_def using Q[of 1 0] cS by (intro sp) simp_all
  have s2: "in_span b1 b2 e2" unfolding e2_def using Q[of 0 1] cS by (intro sp) simp_all
  have key: "p = vadd c (vadd (smul (coord i p) e1) (smul (coord j p) e2))" if "p \<in> S" for p
  proof -
    let ?D = "vsub (vsub (vsub p c) (smul (coord i p) e1)) (smul (coord j p) e2)"
    have "in_span b1 b2 ?D"
      by (intro in_span_vsub in_span_smul sp that cS s1 s2)
    then have D: "?D = (0, 0, 0, 0)"
      by (rule zero) (simp_all add: coord_vsub coord_smul ci cj e1i e1j e2i e2j)
    have "coord k p = coord k (vadd c (vadd (smul (coord i p) e1) (smul (coord j p) e2)))" for k
      using arg_cong[OF D, of "coord k"]
      by (simp add: coord_vsub coord_smul coord_vadd coord_zero)
    then show ?thesis by (rule vec_eqI)
  qed
  have pt: "vadd c (vadd (smul x e1) (smul y e2)) \<in> S" if "x \<in> ?U" "y \<in> ?U" for x y
    using Q[OF that] key[of "Q x y"] by simp
  have "S = set (grid c e1 e2)"
  proof
    show "S \<subseteq> set (grid c e1 e2)"
    proof
      fix p assume p: "p \<in> S"
      from p lat have "lattice p" by blast
      then have "coord i p \<in> ?U" "coord j p \<in> ?U" by (simp_all only: lattice_unit)
      with key[OF p] show "p \<in> set (grid c e1 e2)" unfolding set_grid by blast
    qed
    show "set (grid c e1 e2) \<subseteq> S" unfolding set_grid using pt by blast
  qed
  moreover have "\<bar>coord k e1\<bar> + \<bar>coord k e2\<bar> \<le> 1" for k
  proof -
    have b: "\<bar>coord k c + x * coord k e1 + y * coord k e2\<bar> \<le> 1" if "x \<in> ?U" "y \<in> ?U" for x y
    proof -
      from pt[OF that] lat have "lattice (vadd c (vadd (smul x e1) (smul y e2)))" by blast
      from lattice_coord[OF this, of k] show ?thesis by (simp add: coord_vadd coord_smul)
    qed
    show ?thesis using b[of 1 1] b[of 1 "- 1"] b[of "- 1" 1] b[of "- 1" "- 1"]
      by (intro corner_bound[of "coord k c"]) simp_all
  qed
  moreover have "e1 \<noteq> (0, 0, 0, 0)" using e1i by (auto simp: coord_zero)
  moreover have "e2 \<noteq> (0, 0, 0, 0)" using e2j by (auto simp: coord_zero)
  ultimately show ?thesis by blast
qed

section \<open>The sorted order of a grid\<close>

lemma sign_choice: "e \<noteq> (0, 0, 0, 0) \<Longrightarrow> lexpos e \<or> lexpos (vneg e)"
  by (cases e) (auto simp: lexpos_def)

lemma lexpos_not_neg: "lexpos e \<Longrightarrow> \<not> lexpos (vneg e)"
  by (cases e) (auto simp: lexpos_def)

lemma lexpos_not_neg2: "lexpos e \<Longrightarrow> \<not> lexpos (smul (- 2) e)"
  by (cases e) (auto simp: lexpos_def)

lemma unit_pair:
  fixes a b :: int
  assumes "\<bar>a\<bar> + \<bar>b\<bar> \<le> 1"
  shows "a = 0 \<and> b = 0 \<or> a = 1 \<and> b = 0 \<or> a = - 1 \<and> b = 0 \<or> a = 0 \<and> b = 1 \<or> a = 0 \<and> b = - 1"
  using assms by auto

lemma order_choice:
  assumes b: "\<And>k. \<bar>coord k g1\<bar> + \<bar>coord k g2\<bar> \<le> 1"
    and p: "lexpos g1" "lexpos g2"
  shows "lexpos (vsub g1 (smul 2 g2)) \<or> lexpos (vsub g2 (smul 2 g1))"
proof -
  obtain a1 a2 a3 a4 where g1: "g1 = (a1, a2, a3, a4)" by (cases g1)
  obtain c1 c2 c3 c4 where g2: "g2 = (c1, c2, c3, c4)" by (cases g2)
  note u = unit_pair[OF b[of X1, unfolded g1 g2 coord.simps]]
    unit_pair[OF b[of X2, unfolded g1 g2 coord.simps]]
    unit_pair[OF b[of X3, unfolded g1 g2 coord.simps]]
    unit_pair[OF b[of X4, unfolded g1 g2 coord.simps]]
  show ?thesis
    using p u(1) unfolding g1 g2 lexpos_def
    apply (elim disjE conjE)
        apply (use u(2) in \<open>elim disjE conjE\<close>)
            apply (use u(3) in \<open>elim disjE conjE\<close>)
                apply (use u(4) in \<open>elim disjE conjE\<close>)
                    apply simp_all
    done
qed

lemma grid_explicit:
  "grid c g1 g2 =
    [vadd c (vadd (smul (- 1) g1) (smul (- 1) g2)), vadd c (vadd (smul (- 1) g1) (smul 0 g2)),
     vadd c (vadd (smul (- 1) g1) (smul 1 g2)),
     vadd c (vadd (smul 0 g1) (smul (- 1) g2)), vadd c (vadd (smul 0 g1) (smul 0 g2)),
     vadd c (vadd (smul 0 g1) (smul 1 g2)),
     vadd c (vadd (smul 1 g1) (smul (- 1) g2)), vadd c (vadd (smul 1 g1) (smul 0 g2)),
     vadd c (vadd (smul 1 g1) (smul 1 g2))]"
  by (simp add: grid_def)

lemma grid_flip1: "set (grid c (vneg g1) g2) = set (grid c g1 g2)"
  by (cases c; cases g1; cases g2) (simp add: grid_explicit insert_commute)

lemma grid_flip2: "set (grid c g1 (vneg g2)) = set (grid c g1 g2)"
  by (cases c; cases g1; cases g2) (simp add: grid_explicit insert_commute)

lemma grid_swap: "set (grid c g2 g1) = set (grid c g1 g2)"
  by (cases c; cases g1; cases g2) (simp add: grid_explicit insert_commute add.commute)

lemma coord_vneg: "coord k (vneg e) = - coord k (e :: point)"
  by (cases k; cases e) simp_all

lemma deltas_Cons: "deltas (x # y # xs) = vsub y x # deltas (y # xs)"
  by (simp add: deltas_nat upt_rec[of 0] map_Suc_upt[symmetric] del: upt_Suc)

lemma deltas_single: "deltas [x] = []"
  by (simp add: deltas_nat)

lemma deltas_Nil: "deltas [] = []"
  by (simp add: deltas_nat)

lemma grid_deltas:
  "deltas (grid c g1 g2) =
     [g2, g2, vsub g1 (smul 2 g2), g2, g2, vsub g1 (smul 2 g2), g2, g2]"
  by (cases c; cases g1; cases g2) (simp add: grid_explicit deltas_Cons deltas_single)

lemma transp_lex_less: "transp lex_less"
  by (rule transpI) (rule lex_less_trans)

lemma successively_deltas:
  "successively lex_less xs \<longleftrightarrow> (\<forall>d\<in>set (deltas xs). lexpos d)"
  by (induction xs rule: induct_list012)
     (simp_all add: deltas_Nil deltas_single deltas_Cons lex_less_lexpos)

lemma sorted_deltas: "sorted_wrt lex_less xs \<longleftrightarrow> (\<forall>d\<in>set (deltas xs). lexpos d)"
  using successively_conv_sorted_wrt[OF transp_lex_less, of xs] successively_deltas[of xs]
  by simp

lemma grid_sorted:
  assumes "lexpos g2" "lexpos (vsub g1 (smul 2 g2))"
  shows "sorted_wrt lex_less (grid c g1 g2)"
  unfolding sorted_deltas grid_deltas using assms by simp

lemma sorted_lex_unique:
  assumes "sorted_wrt lex_less xs" "sorted_wrt lex_less ys" "set xs = set ys"
  shows "xs = ys"
  using assms
proof (induction xs arbitrary: ys)
  case Nil
  then show ?case by simp
next
  case (Cons x xs)
  from Cons.prems(3) obtain y ys' where ys: "ys = y # ys'" by (cases ys) auto
  have sx: "\<forall>z\<in>set xs. lex_less x z" "sorted_wrt lex_less xs" using Cons.prems(1) by simp_all
  have sy: "\<forall>z\<in>set ys'. lex_less y z" "sorted_wrt lex_less ys'"
    using Cons.prems(2) unfolding ys by simp_all
  have xy: "x = y"
  proof (rule ccontr)
    assume n: "x \<noteq> y"
    have "x \<in> set ys'" using Cons.prems(3) n unfolding ys by auto
    then have 1: "lex_less y x" using sy(1) by blast
    have "y \<in> set xs" using Cons.prems(3) n unfolding ys by auto
    then have "lex_less x y" using sx(1) by blast
    with 1 show False using lex_less_asym by blast
  qed
  have nx: "x \<notin> set xs" using sx(1) lex_less_irrefl by blast
  have ny: "x \<notin> set ys'" using sy(1) lex_less_irrefl unfolding xy by blast
  have "set xs = set ys'" using Cons.prems(3) nx ny unfolding ys xy by auto
  with Cons.IH[OF sx(2) sy(2)] show ?case unfolding ys xy by simp
qed

lemma grid_orient:
  assumes b: "\<And>k. \<bar>coord k e1\<bar> + \<bar>coord k e2\<bar> \<le> 1"
    and n: "e1 \<noteq> (0, 0, 0, 0)" "e2 \<noteq> (0, 0, 0, 0)"
  shows "\<exists>g1 g2. set (grid c g1 g2) = set (grid c e1 e2) \<and> lexpos g2 \<and>
           lexpos (vsub g1 (smul 2 g2))"
proof -
  obtain f1 where f1: "lexpos f1" "f1 = e1 \<or> f1 = vneg e1"
    using sign_choice[OF n(1)] by blast
  obtain f2 where f2: "lexpos f2" "f2 = e2 \<or> f2 = vneg e2"
    using sign_choice[OF n(2)] by blast
  have s: "set (grid c f1 f2) = set (grid c e1 e2)"
    using f1(2) f2(2) by (auto simp only: grid_flip1 grid_flip2)
  have bf: "\<bar>coord k f1\<bar> + \<bar>coord k f2\<bar> \<le> 1" for k
    using b[of k] f1(2) f2(2) by (auto simp: coord_vneg)
  from order_choice[OF bf f1(1) f2(1)] show ?thesis
  proof
    assume "lexpos (vsub f1 (smul 2 f2))"
    with s f2(1) show ?thesis by blast
  next
    assume "lexpos (vsub f2 (smul 2 f1))"
    with s f1(1) grid_swap[of c f1 f2] show ?thesis by metis
  qed
qed

section \<open>The exact check implies the fast filter\<close>

lemma sorted_points:
  assumes "in_range s" "sorted_wrt (<) s"
  shows "sorted_wrt lex_less (map pt_of s)"
  unfolding sorted_wrt_map
  using assms(2)
proof (rule sorted_wrt_mono_rel[rotated])
  fix i j assume "i \<in> set s" "j \<in> set s" "i < j"
  with assms(1) show "lex_less (pt_of i) (pt_of j)" by (intro lex_pt) (auto simp: in_range_def)
qed

lemma vsub_vsub: "vsub (vsub p c) (vsub q c) = vsub p (q :: point)"
  by (cases p; cases q; cases c) simp

lemma vsub_self_span: "in_span b1 b2 (vsub p p)"
proof -
  have "to_float (vsub p p) = vadd (smul 0 (to_float b1)) (smul 0 (to_float b2))"
    by (cases p; cases b1; cases b2) simp
  then show ?thesis unfolding in_span_def by blast
qed

lemma colinear_impossible:
  assumes ir: "in_range (i0 # i1 # k1 # k2 # r)" and so: "sorted_wrt (<) (i0 # i1 # k1 # k2 # r)"
    and n: "second_basis (vsub (pt_of i1) (pt_of i0))
              (map (\<lambda>k. vsub (pt_of k) (pt_of i0)) (k1 # k2 # r)) = None"
  shows False
proof -
  let ?b1 = "vsub (pt_of i1) (pt_of i0)"
  have r: "0 \<le> i0" "i0 < i1" "i1 < k1" "k1 < k2" "k2 \<le> 80"
    using ir so by (auto simp: in_range_def)
  have pb: "lexpos ?b1" using lex_pt[of i0 i1] r by (simp add: lex_less_lexpos)
  have two: "vsub (pt_of k) (pt_of i0) = smul 2 ?b1" if "k = k1 \<or> k = k2" for k
  proof -
    have "lexpos (vsub (pt_of k) (pt_of i0))"
      using lex_pt[of i0 k] r that by (auto simp: lex_less_lexpos)
    moreover have "vsub (pt_of k) (pt_of i0) = vneg ?b1 \<or>
        vsub (pt_of k) (pt_of i0) = smul (- 2) ?b1 \<or> vsub (pt_of k) (pt_of i0) = smul 2 ?b1"
      using second_basis_None[OF n] that by auto
    ultimately show ?thesis using lexpos_not_neg[OF pb] lexpos_not_neg2[OF pb] by auto
  qed
  have "vsub (pt_of k1) (pt_of i0) = vsub (pt_of k2) (pt_of i0)" using two[of k1] two[of k2] by simp
  then have "pt_of k1 = pt_of k2" by (rule vsub_cancel)
  then have "k1 = k2" using r by (intro pt_of_inj) auto
  with r show False by simp
qed

lemma exact_nine_grid:
  assumes acc: "fp_accurate u ops" and u: "0 \<le> u" "u \<le> 1 / 10 ^ 15"
    and ir: "in_range s" and so: "sorted_wrt (<) s" and len: "length s = 9"
    and ex: "is_solution_subseq ops s = Inr True"
  shows "\<exists>c g1 g2. map pt_of s = grid c g1 g2"
proof -
  from len obtain i0 i1 k1 k2 r where s: "s = i0 # i1 # k1 # k2 # r"
    by (cases s; cases "tl s"; cases "tl (tl s)"; cases "tl (tl (tl s))") auto
  let ?b1 = "vsub (pt_of i1) (pt_of i0)"
  let ?rel = "\<lambda>k. vsub (pt_of k) (pt_of i0)"
  let ?r = "k1 # k2 # r"
  have ir': "in_range (i0 # i1 # ?r)" and so': "sorted_wrt (<) (i0 # i1 # ?r)"
    using ir so unfolding s by simp_all
  have long: "is_solution_subseq ops (i0 # i1 # ?r) =
     (case second_basis ?b1 (map ?rel ?r) of None \<Rightarrow> Inr True
      | Some b2 \<Rightarrow> Inr (residuals_vanish ops ?b1 b2 (?b1 # map ?rel ?r)))"
    using ir' by (rule iss_long) simp
  obtain b2 where sb: "second_basis ?b1 (map ?rel ?r) = Some b2"
    using colinear_impossible[OF ir' so'] by (cases "second_basis ?b1 (map ?rel ?r)") auto
  have rv: "residuals_vanish ops ?b1 b2 (?b1 # map ?rel ?r)"
    using ex unfolding s long sb by simp
  note bi = basis_independent[OF ir' so' sb]
  note sf = sorted_facts[OF ir' so']
  have l0: "lattice (pt_of i0)" using sf by (intro lattice_pt) auto
  have lk: "lattice (pt_of k)" if "k \<in> set s" for k
    using ir that by (intro lattice_pt) (auto simp: in_range_def)
  have sm: "\<forall>p\<in>set (?b1 # map ?rel ?r). small p"
    using lattice_small[OF l0 lk] unfolding s by auto
  have sp0: "\<forall>p\<in>set (?b1 # map ?rel ?r). in_span ?b1 b2 p"
    using rv residuals_vanish_iff[OF acc u bi(1,2) sm bi(3)] by blast
  define S where "S = set (map pt_of s)"
  have rel: "in_span ?b1 b2 (vsub p (pt_of i0))" if "p \<in> S" for p
  proof -
    from that consider "p = pt_of i0" | "vsub p (pt_of i0) \<in> set (?b1 # map ?rel ?r)"
      unfolding S_def s by auto
    then show ?thesis
    proof cases
      case 1
      then show ?thesis by (simp only: vsub_self_span)
    next
      case 2
      with sp0 show ?thesis by blast
    qed
  qed
  have sp: "in_span ?b1 b2 (vsub p q)" if "p \<in> S" "q \<in> S" for p q
    using in_span_vsub[OF rel[OF that(1)] rel[OF that(2)]] by (simp only: vsub_vsub)
  have sl: "sorted_wrt lex_less (map pt_of s)" using ir so by (rule sorted_points)
  then have "distinct (map pt_of s)" by (rule sorted_lex_distinct)
  from distinct_card[OF this] have card: "card S = 9" unfolding S_def using len by simp
  have fin: "finite S" unfolding S_def by simp
  have lat: "\<forall>p\<in>S. lattice p" unfolding S_def using lk by auto
  have g: "gram ?b1 b2 \<noteq> 0" using bi(3) by simp
  from plane_grid[OF fin card lat sp g] obtain c e1 e2 where
    e: "S = set (grid c e1 e2)" "\<And>k. \<bar>coord k e1\<bar> + \<bar>coord k e2\<bar> \<le> 1"
       "e1 \<noteq> (0, 0, 0, 0)" "e2 \<noteq> (0, 0, 0, 0)"
    by blast
  from grid_orient[OF e(2,3,4), of c] obtain g1 g2 where
    o: "set (grid c g1 g2) = set (grid c e1 e2)" "lexpos g2" "lexpos (vsub g1 (smul 2 g2))"
    by blast
  have "sorted_wrt lex_less (grid c g1 g2)" using o(2,3) by (rule grid_sorted)
  with sl have "map pt_of s = grid c g1 g2"
    by (rule sorted_lex_unique) (simp only: o(1) e(1)[symmetric] S_def)
  then show ?thesis by blast
qed

lemma fast_grid: "card (set (deltas (grid c g1 g2))) \<le> 2"
proof -
  have "set (deltas (grid c g1 g2)) \<subseteq> {g2, vsub g1 (smul 2 g2)}"
    unfolding grid_deltas by auto
  then have "card (set (deltas (grid c g1 g2))) \<le> card {g2, vsub g1 (smul 2 g2)}"
    by (intro card_mono) simp_all
  also have "\<dots> \<le> 2" by (simp add: card_insert_if)
  finally show ?thesis .
qed

lemma exact_nine_fast:
  assumes acc: "fp_accurate u ops" and u: "0 \<le> u" "u \<le> 1 / 10 ^ 15"
    and ir: "in_range s" and so: "sorted_wrt (<) s" and len: "length s = 9"
    and ex: "is_solution_subseq ops s = Inr True"
  shows "is_solution_subseq_fast s = Inr True"
proof -
  from exact_nine_grid[OF assms] obtain c g1 g2 where "map pt_of s = grid c g1 g2" by blast
  then show ?thesis unfolding fast_in_range[OF ir] by (simp add: fast_grid)
qed

lemma tails_root_iff:
  assumes acc: "fp_accurate u ops" and u: "0 \<le> u" "u \<le> 1 / 10 ^ 15"
  shows "t \<in> set (idx_tails ops 0 [] 9) \<longleftrightarrow>
         length t = 9 \<and> sorted_wrt (<) t \<and> in_range t \<and> is_solution_subseq ops t = Inr True"
proof
  assume "t \<in> set (idx_tails ops 0 [] 9)"
  then show "length t = 9 \<and> sorted_wrt (<) t \<and> in_range t \<and> is_solution_subseq ops t = Inr True"
    unfolding idx_tails_iff by (simp add: in_range_def)
next
  assume a: "length t = 9 \<and> sorted_wrt (<) t \<and> in_range t \<and> is_solution_subseq ops t = Inr True"
  then have ir: "in_range t" by blast
  have "is_solution_subseq_fast t = Inr True"
    using acc u a by (intro exact_nine_fast[of u ops]) blast+
  from fast_take[OF ir this]
  have "\<forall>k<9. is_solution_subseq_fast ([] @ take k t) = Inr True" by simp
  with a show "t \<in> set (idx_tails ops 0 [] 9)"
    unfolding idx_tails_iff by (simp add: in_range_def)
qed

text \<open>
  C1. For every strictly increasing sequence \<open>s\<close> of 9 indices in \<open>[0, 80]\<close>, the root call
  \<open>find_planes()\<close> yields the plane of \<open>s\<close> if and only if \<open>is_solution_subseq(s)\<close> returns
  true: the pruning by the fast filter at the partial depths never excludes a sequence
  whose full candidate passes the exact check. The float arithmetic is any arithmetic that
  is accurate to a unit roundoff of at most \<open>10^-15\<close>.
\<close>

theorem pruned_search_is_brute_force:
  assumes acc: "fp_accurate u ops" and u: "0 \<le> u" "u \<le> 1 / 10 ^ 15"
    and len: "length s = 9" and ir: "in_range s" and so: "sorted_wrt (<) s"
  shows "\<exists>plane. points_at s = Inr plane \<and>
           (plane \<in> set (yielded (find_planes ops 0 [] 9)) \<longleftrightarrow>
            is_solution_subseq ops s = Inr True)"
proof -
  have "map pt_of s \<in> set (yielded (find_planes ops 0 [] 9)) \<longleftrightarrow>
        is_solution_subseq ops s = Inr True"
  proof
    assume "map pt_of s \<in> set (yielded (find_planes ops 0 [] 9))"
    then obtain t where t: "t \<in> set (idx_tails ops 0 [] 9)" "map pt_of s = map pt_of t"
      unfolding yielded_root by auto
    from t(1) have p: "in_range t" "is_solution_subseq ops t = Inr True"
      unfolding tails_root_iff[OF acc u] by blast+
    from ir p(1) t(2) have "s = t" by (rule map_pt_of_inj)
    with p(2) show "is_solution_subseq ops s = Inr True" by simp
  next
    assume "is_solution_subseq ops s = Inr True"
    with len ir so have "s \<in> set (idx_tails ops 0 [] 9)"
      unfolding tails_root_iff[OF acc u] by blast
    then show "map pt_of s \<in> set (yielded (find_planes ops 0 [] 9))"
      unfolding yielded_root by simp
  qed
  with points_at_in_range[OF ir] show ?thesis by blast
qed

theorem pruned_search_is_brute_force_witness:
  "map pt_of [0, 1, 2, 3, 4, 5, 6, 7, 8] \<in> set (yielded (find_planes exact_ops 0 [] 9)) \<and>
   map pt_of [0, 1, 2, 3, 4, 5, 6, 7, 9] \<notin> set (yielded (find_planes exact_ops 0 [] 9))"
proof -
  have u: "(0::real) \<le> 0" "(0::real) \<le> 1 / 10 ^ 15" by simp_all
  let ?s = "[0, 1, 2, 3, 4, 5, 6, 7, 8] :: int list"
  let ?t = "[0, 1, 2, 3, 4, 5, 6, 7, 9] :: int list"
  have s: "length ?s = 9" "in_range ?s" "sorted_wrt (<) ?s" by (simp_all add: in_range_def)
  have t: "length ?t = 9" "in_range ?t" "sorted_wrt (<) ?t" by (simp_all add: in_range_def)
  from pruned_search_is_brute_force[OF exact_accurate u s] points_at_in_range[OF s(2)]
    exact_first_nine
  have 1: "map pt_of ?s \<in> set (yielded (find_planes exact_ops 0 [] 9))" by simp
  from pruned_search_is_brute_force[OF exact_accurate u t] points_at_in_range[OF t(2)]
    exact_perturbed_nine
  have 2: "map pt_of ?t \<notin> set (yielded (find_planes exact_ops 0 [] 9))" by simp
  from 1 2 show ?thesis by blast
qed

end
